theory Spec2Isabelle
  imports
    Complex_Main
    "HOL-Library.Multiset"
    "HOL-Library.List_Lexorder"
    "HOL-Library.Char_ord"
begin

section \<open>Python values\<close>

text \<open>
  Exceptions are values. The two parsers of \<^verbatim>\<open>app.py\<close> catch everything (a bare
  \<^verbatim>\<open>except:\<close>), the sorting step of \<^verbatim>\<open>main\<close> catches only subclasses of
  \<^verbatim>\<open>Exception\<close>; \<open>BaseExceptionOnly\<close> stands for the others (KeyboardInterrupt,
  SystemExit).
\<close>

datatype py_exc =
    ValueError | IndexError | OverflowError | ZeroDivisionError | TypeError | KeyError
  | OtherException string
  | BaseExceptionOnly string

fun is_Exception :: "py_exc \<Rightarrow> bool" where
  "is_Exception (BaseExceptionOnly _) = False"
| "is_Exception _ = True"

text \<open>
  A Python \<^verbatim>\<open>float\<close> is an IEEE 754 binary64 number. A finite one is kept as the
  rational it denotes; the two zeros are identified (they compare equal in Python and
  no operation of the program tells them apart in a way that \<^verbatim>\<open>==\<close> or a sort sees).
\<close>

datatype pyfloat = Finite rat | PInf | NInf | NaN

datatype pynum = PyInt int | PyFloat pyfloat

subsection \<open>Rounding to binary64\<close>

function blen :: "int \<Rightarrow> int" where
  \<comment> \<open>the number of binary digits of a positive integer\<close>
  "blen n = (if n \<le> 0 then 0 else 1 + blen (n div 2))"
  by pat_completeness auto
termination
  by (relation "measure nat") auto

declare blen.simps [simp del]

definition ilog2 :: "rat \<Rightarrow> int" where
  \<comment> \<open>\<open>\<lfloor>log\<^sub>2 a\<rfloor>\<close> for \<open>a > 0\<close>\<close>
  "ilog2 a =
     (let n = fst (quotient_of a); d = snd (quotient_of a);
          g = blen n - blen d
      in if 2 powi g \<le> a then g else g - 1)"

definition round_half_even :: "rat \<Rightarrow> int" where
  "round_half_even q =
     (let f = \<lfloor>q\<rfloor>; r = q - of_int f
      in if r < 1 / 2 then f else if 1 / 2 < r then f + 1
         else if even f then f else f + 1)"

definition rhe_frac :: "int \<Rightarrow> int \<Rightarrow> int" where
  \<comment> \<open>\<open>round_half_even\<close> of the fraction \<open>n / d\<close>, in integers\<close>
  "rhe_frac n d =
     (let f = n div d; r2 = 2 * (n mod d)
      in if r2 < d then f else if d < r2 then f + 1 else if even f then f else f + 1)"

definition round_pos :: "rat \<Rightarrow> rat" where
  \<comment> \<open>nearest value with a 53-bit significand and exponent at least \<open>-1022\<close>, for \<open>a > 0\<close>\<close>
  "round_pos a =
     (let u = 2 powi (max (ilog2 a) (- 1022) - 52)
      in of_int (round_half_even (a / u)) * u)"

definition round_double :: "rat \<Rightarrow> pyfloat" where
  "round_double q =
     (if q = 0 then Finite 0
      else if 0 < q then (if 2 ^ 1024 \<le> round_pos q then PInf else Finite (round_pos q))
      else (if 2 ^ 1024 \<le> round_pos (- q) then NInf else Finite (- round_pos (- q))))"

subsection \<open>Arithmetic of \<^verbatim>\<open>float\<close> and \<^verbatim>\<open>int\<close>\<close>

fun fadd :: "pyfloat \<Rightarrow> pyfloat \<Rightarrow> pyfloat" where
  "fadd (Finite a) (Finite b) = round_double (a + b)"
| "fadd NaN _ = NaN"
| "fadd _ NaN = NaN"
| "fadd PInf NInf = NaN"
| "fadd NInf PInf = NaN"
| "fadd PInf _ = PInf"
| "fadd _ PInf = PInf"
| "fadd NInf _ = NInf"
| "fadd _ NInf = NInf"

fun fmul :: "pyfloat \<Rightarrow> pyfloat \<Rightarrow> pyfloat" where
  "fmul (Finite a) (Finite b) = round_double (a * b)"
| "fmul NaN _ = NaN"
| "fmul _ NaN = NaN"
| "fmul (Finite a) PInf = (if a = 0 then NaN else if 0 < a then PInf else NInf)"
| "fmul (Finite a) NInf = (if a = 0 then NaN else if 0 < a then NInf else PInf)"
| "fmul PInf (Finite b) = (if b = 0 then NaN else if 0 < b then PInf else NInf)"
| "fmul NInf (Finite b) = (if b = 0 then NaN else if 0 < b then NInf else PInf)"
| "fmul PInf PInf = PInf"
| "fmul NInf NInf = PInf"
| "fmul PInf NInf = NInf"
| "fmul NInf PInf = NInf"

fun fdiv :: "pyfloat \<Rightarrow> pyfloat \<Rightarrow> py_exc + pyfloat" where
  \<comment> \<open>Python raises on a zero divisor instead of returning an infinity\<close>
  "fdiv x (Finite b) =
     (if b = 0 then Inl ZeroDivisionError
      else Inr (case x of
          Finite a \<Rightarrow> round_double (a / b)
        | PInf \<Rightarrow> (if 0 < b then PInf else NInf)
        | NInf \<Rightarrow> (if 0 < b then NInf else PInf)
        | NaN \<Rightarrow> NaN))"
| "fdiv NaN _ = Inr NaN"
| "fdiv _ NaN = Inr NaN"
| "fdiv (Finite a) _ = Inr (Finite 0)"
| "fdiv _ _ = Inr NaN"

definition int_to_float :: "int \<Rightarrow> py_exc + pyfloat" where
  \<comment> \<open>the conversion of an \<^verbatim>\<open>int\<close> operand in mixed arithmetic: correctly rounded,
      \<^verbatim>\<open>OverflowError\<close> when the result would not be finite\<close>
  "int_to_float n =
     (case round_double (of_int n) of
        Finite r \<Rightarrow> Inr (Finite r)
      | _ \<Rightarrow> Inl OverflowError)"

section \<open>Python string operations\<close>

text \<open>
  A \<^verbatim>\<open>str\<close> is modelled as a \<^typ>\<open>string\<close> whose characters are the code points
  below 256. On these, \<^verbatim>\<open>str.isspace\<close> holds for the twelve characters below,
  and \<^verbatim>\<open>\d\<close> matches the ten ASCII digits only.
\<close>

definition isspace :: "char \<Rightarrow> bool" where
  "isspace c = (c \<in> set [CHR 0x09, CHR 0x0A, CHR 0x0B, CHR 0x0C, CHR 0x0D,
                          CHR 0x1C, CHR 0x1D, CHR 0x1E, CHR 0x1F, CHR 0x20, CHR 0x85, CHR 0xA0])"

definition isdigit :: "char \<Rightarrow> bool" where
  "isdigit c = (c \<in> set ''0123456789'')"

definition strip_by :: "(char \<Rightarrow> bool) \<Rightarrow> string \<Rightarrow> string" where
  "strip_by p s = rev (dropWhile p (rev (dropWhile p s)))"

definition strip :: "string \<Rightarrow> string" where
  \<comment> \<open>\<^verbatim>\<open>s.strip()\<close>\<close>
  "strip s = strip_by isspace s"

definition replace_chr :: "char \<Rightarrow> string \<Rightarrow> string \<Rightarrow> string" where
  \<comment> \<open>\<^verbatim>\<open>s.replace(old, new)\<close> for a one-character \<^verbatim>\<open>old\<close>\<close>
  "replace_chr old new s = concat (map (\<lambda>c. if c = old then new else [c]) s)"

definition split_once :: "char \<Rightarrow> string \<Rightarrow> string list" where
  \<comment> \<open>\<^verbatim>\<open>s.split(sep, 1)\<close> for a one-character \<^verbatim>\<open>sep\<close>\<close>
  "split_once sep s =
     (if sep \<in> set s
      then [takeWhile (\<lambda>c. c \<noteq> sep) s, tl (dropWhile (\<lambda>c. c \<noteq> sep) s)]
      else [s])"

fun unpack2 :: "'a list \<Rightarrow> py_exc + ('a \<times> 'a)" where
  \<comment> \<open>\<^verbatim>\<open>a, b = xs\<close>\<close>
  "unpack2 [a, b] = Inr (a, b)"
| "unpack2 _ = Inl ValueError"

fun split_on :: "(char \<Rightarrow> bool) \<Rightarrow> string \<Rightarrow> string list" where
  \<comment> \<open>split at every character satisfying \<open>p\<close>, keeping empty pieces\<close>
  "split_on p [] = [] # []"
| "split_on p (c # cs) =
     (if p c then [] # split_on p cs
      else (case split_on p cs of [] \<Rightarrow> [c] # [] | t # ts \<Rightarrow> (c # t) # ts))"

definition re_split_quotes :: "string \<Rightarrow> string list" where
  \<comment> \<open>\<^verbatim>\<open>re.split(r"['\"]", s)\<close>\<close>
  "re_split_quotes s = split_on (\<lambda>c. c = CHR 0x27 \<or> c = CHR 0x22) s"

definition py_split :: "string \<Rightarrow> string list" where
  \<comment> \<open>\<^verbatim>\<open>s.split()\<close>: the maximal runs of non-whitespace characters\<close>
  "py_split s = filter (\<lambda>t. t \<noteq> []) (split_on isspace s)"

fun subscript0 :: "'a list \<Rightarrow> py_exc + 'a" where
  \<comment> \<open>\<^verbatim>\<open>xs[0]\<close>\<close>
  "subscript0 [] = Inl IndexError"
| "subscript0 (x # _) = Inr x"

definition re_match_digits_m :: "string \<Rightarrow> string option" where
  \<comment> \<open>\<^verbatim>\<open>re.match(r'(\d+)m', s)\<close>: group 1 of the match at the start of \<open>s\<close>, if any.
      The digits are taken greedily; giving one back never helps, as the next character
      would be a digit, not \<^verbatim>\<open>m\<close>.\<close>
  "re_match_digits_m s =
     (let ds = takeWhile isdigit s
      in if ds = [] then None
         else (case dropWhile isdigit s of
                 c # _ \<Rightarrow> if c = CHR ''m'' then Some ds else None
               | [] \<Rightarrow> None))"

subsection \<open>\<^verbatim>\<open>int(s)\<close> and \<^verbatim>\<open>float(s)\<close>\<close>

definition digit_val :: "char \<Rightarrow> int" where
  "digit_val c = of_char c - 48"

definition int_of_digits :: "string \<Rightarrow> int" where
  "int_of_digits ds = foldl (\<lambda>n c. 10 * n + digit_val c) 0 ds"

definition num_space :: "char \<Rightarrow> bool" where
  \<comment> \<open>the whitespace that \<^verbatim>\<open>int\<close> and \<^verbatim>\<open>float\<close> skip around a literal\<close>
  "num_space c = (c \<in> set [CHR 0x09, CHR 0x0A, CHR 0x0B, CHR 0x0C, CHR 0x0D, CHR 0x20,
                            CHR 0x85, CHR 0xA0])"

definition split_sign :: "string \<Rightarrow> bool \<times> string" where
  \<comment> \<open>one optional sign; the flag says that it is a minus\<close>
  "split_sign s =
     (case s of
        c # t \<Rightarrow> if c = CHR ''-'' then (True, t) else if c = CHR ''+'' then (False, t)
                 else (False, s)
      | [] \<Rightarrow> (False, s))"

definition int_max_str_digits :: int where
  \<comment> \<open>CPython's default limit on the digits of a decimal literal given to \<^verbatim>\<open>int\<close>\<close>
  "int_max_str_digits = 4300"

definition py_int :: "string \<Rightarrow> py_exc + int" where
  \<comment> \<open>\<^verbatim>\<open>int(s)\<close>: whitespace, an optional sign, groups of digits joined by single
      underscores, whitespace\<close>
  "py_int s =
     (let (neg, body) = split_sign (strip_by num_space s);
          groups = split_on (\<lambda>c. c = CHR ''_'') body;
          ds = concat groups
      in if (\<forall>g \<in> set groups. g \<noteq> [] \<and> (\<forall>c \<in> set g. isdigit c))
            \<and> int (length ds) \<le> int_max_str_digits
         then Inr (if neg then - int_of_digits ds else int_of_digits ds)
         else Inl ValueError)"

fun underscores_ok :: "char \<Rightarrow> string \<Rightarrow> bool" where
  \<comment> \<open>an underscore is allowed only between two digits; the first argument is the
      previous character\<close>
  "underscores_ok prev [] = (prev \<noteq> CHR ''_'')"
| "underscores_ok prev (c # cs) =
     ((if c = CHR ''_'' then isdigit prev else (prev = CHR ''_'' \<longrightarrow> isdigit c))
      \<and> underscores_ok c cs)"

definition to_lower :: "char \<Rightarrow> char" where
  \<comment> \<open>lower case of an ASCII letter\<close>
  "to_lower c = (if 65 \<le> (of_char c :: int) \<and> (of_char c :: int) \<le> 90
                 then char_of (of_char c + (32 :: int)) else c)"

definition parse_inf_or_nan :: "string \<Rightarrow> pyfloat option" where
  "parse_inf_or_nan s =
     (let l = map to_lower s
      in if l = ''inf'' \<or> l = ''infinity'' then Some PInf
         else if l = ''nan'' then Some NaN else None)"

definition parse_exponent :: "string \<Rightarrow> int option" where
  \<comment> \<open>the rest of a decimal literal: nothing, or \<^verbatim>\<open>e\<close>, an optional sign and digits\<close>
  "parse_exponent s =
     (case s of
        [] \<Rightarrow> Some 0
      | c # t \<Rightarrow>
          if c = CHR ''e'' \<or> c = CHR ''E'' then
            (let (neg, ds) = split_sign t
             in if ds \<noteq> [] \<and> (\<forall>d \<in> set ds. isdigit d)
                then Some (if neg then - int_of_digits ds else int_of_digits ds)
                else None)
          else None)"

definition parse_decimal :: "string \<Rightarrow> (int \<times> int) option" where
  \<comment> \<open>digits, an optional point and digits, an optional exponent: \<open>(m, k)\<close> for the
      value \<open>m \<cdot> 10\<^sup>k\<close>\<close>
  "parse_decimal s =
     (let ip = takeWhile isdigit s; r1 = dropWhile isdigit s;
          (fp, r2) = (case r1 of
                        c # t \<Rightarrow> if c = CHR ''.''
                                 then (takeWhile isdigit t, dropWhile isdigit t)
                                 else ([], r1)
                      | [] \<Rightarrow> ([], r1))
      in if ip = [] \<and> fp = [] then None
         else (case parse_exponent r2 of
                 None \<Rightarrow> None
               | Some e \<Rightarrow> Some (int_of_digits (ip @ fp), e - int (length fp))))"

definition py_float :: "string \<Rightarrow> py_exc + pyfloat" where
  \<comment> \<open>\<^verbatim>\<open>float(s)\<close>: the literal is rounded correctly; a value too large gives an
      infinity, not an error\<close>
  "py_float s =
     (if \<not> underscores_ok (CHR 0x00) s then Inl ValueError
      else
        (let (neg, body) = split_sign (strip_by num_space (filter (\<lambda>c. c \<noteq> CHR ''_'') s))
         in case parse_decimal body of
              Some (m, k) \<Rightarrow>
                Inr (round_double ((if neg then - 1 else 1) * of_int m * 10 powi k))
            | None \<Rightarrow>
                (case parse_inf_or_nan body of
                   Some v \<Rightarrow> Inr (if neg \<and> v = PInf then NInf else v)
                 | None \<Rightarrow> Inl ValueError)))"

section \<open>The parsers of \<^verbatim>\<open>app.py\<close>\<close>

text \<open>
  The argument of a parser is any object; \<^verbatim>\<open>str(x)\<close> is the object itself for a
  string, and for any other object whatever its \<^verbatim>\<open>__str__\<close> returns or raises.
\<close>

datatype pyobj = Str string | Other "py_exc + string"

fun py_str :: "pyobj \<Rightarrow> py_exc + string" where
  "py_str (Str s) = Inr s"
| "py_str (Other r) = r"

definition bind :: "py_exc + 'a \<Rightarrow> ('a \<Rightarrow> py_exc + 'b) \<Rightarrow> py_exc + 'b" where
  "bind r f = (case r of Inl e \<Rightarrow> Inl e | Inr v \<Rightarrow> f v)"

definition clean :: "string \<Rightarrow> string" where
  \<comment> \<open>\<^verbatim>\<open>str(time_str).strip().replace('"', "'")\<close>\<close>
  "clean s = replace_chr (CHR 0x22) [CHR 0x27] (strip s)"

definition hour_form :: "string \<Rightarrow> py_exc + pynum" where
  \<comment> \<open>the body of \<^verbatim>\<open>if "h" in clean_str:\<close>\<close>
  "hour_form clean_str =
     bind (unpack2 (split_once (CHR ''h'') clean_str)) (\<lambda>(h_part, rest).
     bind (unpack2 (split_once (CHR 0x27) rest)) (\<lambda>(m_part, s_part).
     bind (py_int h_part) (\<lambda>h.
     bind (py_int m_part) (\<lambda>m.
     bind (py_float (replace_chr (CHR 0x27) [] s_part)) (\<lambda>s.
     bind (int_to_float (h * 3600 + m * 60)) (\<lambda>hm.
     Inr (PyFloat (fadd hm s))))))))"

definition time_to_seconds_try :: "pyobj \<Rightarrow> py_exc + pynum" where
  \<comment> \<open>the \<^verbatim>\<open>try\<close> block of \<^verbatim>\<open>time_to_seconds\<close>\<close>
  "time_to_seconds_try time_str =
     bind (py_str time_str) (\<lambda>s.
       let clean_str = clean s in
       if CHR ''h'' \<in> set clean_str then hour_form clean_str
       else
         (let parts = filter (\<lambda>p. p \<noteq> []) (re_split_quotes clean_str) in
          case parts of
            [p0, p1] \<Rightarrow>
              bind (py_float p0) (\<lambda>m.
              bind (py_float p1) (\<lambda>sec.
              Inr (PyFloat (fadd (fmul m (Finite 60)) sec))))
          | [p0, p1, p2] \<Rightarrow>
              bind (py_float p0) (\<lambda>m.
              bind (py_float p1) (\<lambda>sec.
              bind (py_float p2) (\<lambda>c.
              bind (fdiv c (Finite 100)) (\<lambda>hundredths.
              Inr (PyFloat (fadd (fadd (fmul m (Finite 60)) sec) hundredths))))))
          | _ \<Rightarrow>
              bind (py_float (replace_chr (CHR 0x27) ''.'' clean_str)) (\<lambda>v.
              Inr (PyFloat v))))"

definition time_to_seconds :: "pyobj \<Rightarrow> py_exc + pynum" where
  \<comment> \<open>\<^verbatim>\<open>except: return 0\<close>\<close>
  "time_to_seconds time_str =
     (case time_to_seconds_try time_str of Inl _ \<Rightarrow> Inr (PyInt 0) | Inr v \<Rightarrow> Inr v)"

definition road_events :: "(string \<times> pynum) list" where
  "road_events =
     [(''5km Road'', PyInt 5001),
      (''10km Road'', PyInt 10001),
      (''20km Road'', PyInt 20001),
      (''1/2 Marathon'', PyFloat (Finite (210975 / 10)))]"

definition event_to_meters_try :: "pyobj \<Rightarrow> py_exc + pynum" where
  \<comment> \<open>the \<^verbatim>\<open>try\<close> block of \<^verbatim>\<open>event_to_meters\<close>\<close>
  "event_to_meters_try event0 =
     bind (py_str event0) (\<lambda>event.
     bind (subscript0 (py_split event)) (\<lambda>tok.
       case re_match_digits_m tok of
         Some g \<Rightarrow> bind (py_float g) (\<lambda>v. Inr (PyFloat v))
       | None \<Rightarrow>
           Inr (case map_of road_events event of Some v \<Rightarrow> v | None \<Rightarrow> PyInt 0)))"

definition event_to_meters :: "pyobj \<Rightarrow> py_exc + pynum" where
  "event_to_meters event0 =
     (case event_to_meters_try event0 of Inl _ \<Rightarrow> Inr (PyInt 0) | Inr v \<Rightarrow> Inr v)"

section \<open>The table of \<^verbatim>\<open>main\<close> and its sorting\<close>

text \<open>
  A record of the data set has the seven named fields, each a string. Lines 132 to 134 of
  \<^verbatim>\<open>main\<close> add the three derived columns \<^verbatim>\<open>_time_sec\<close>, \<^verbatim>\<open>_event_m\<close> and
  \<^verbatim>\<open>_date\<close>; a date is a timestamp, \<open>None\<close> for \<^verbatim>\<open>NaT\<close>.
\<close>

record athlete_record =
  Event :: string
  Time :: string
  Category :: string
  Club :: string
  Region :: string
  Location :: string
  Date :: string

record row =
  src :: athlete_record
  time_sec :: pynum
  event_m :: pynum
  date :: "int option"

datatype cell = CStr string | CNum pynum | CDate "int option"

definition cell_of :: "string \<Rightarrow> row \<Rightarrow> cell option" where
  \<comment> \<open>the value of a row in the column of that name, if the frame has the column\<close>
  "cell_of name r =
     map_of
       [(''Event'', CStr (Event (src r))),
        (''Time'', CStr (Time (src r))),
        (''Category'', CStr (Category (src r))),
        (''Club'', CStr (Club (src r))),
        (''Region'', CStr (Region (src r))),
        (''Location'', CStr (Location (src r))),
        (''Date'', CStr (Date (src r))),
        (''_time_sec'', CNum (time_sec r)),
        (''_event_m'', CNum (event_m r)),
        (''_date'', CDate (date r))] name"

fun collect :: "(py_exc + 'a) list \<Rightarrow> py_exc + 'a list" where
  \<comment> \<open>\<^verbatim>\<open>Series.apply\<close>: the results in order, or the first exception\<close>
  "collect [] = Inr []"
| "collect (x # xs) = bind x (\<lambda>v. bind (collect xs) (\<lambda>vs. Inr (v # vs)))"

definition prepare ::
  "(string list \<Rightarrow> nat \<Rightarrow> int option) \<Rightarrow> athlete_record list \<Rightarrow> py_exc + row list" where
  \<comment> \<open>lines 132 to 134. \<^verbatim>\<open>pd.to_datetime(column, dayfirst=True, errors='coerce')\<close> is
      library code and a parameter here: \<open>to_datetime column i\<close> is the entry at
      position \<open>i\<close> of its result. Row \<open>i\<close> of the frame gets entry \<open>i\<close> of each new
      column, which \<^verbatim>\<open>apply\<close> has computed for every row. A frame built from an
      empty list of records has no columns at all, so \<^verbatim>\<open>df['Time']\<close> at line 132
      is a \<^verbatim>\<open>KeyError\<close>.\<close>
  "prepare to_datetime recs =
     (if recs = [] then Inl KeyError
      else
        bind (collect (map (\<lambda>r. time_to_seconds (Str (Time r))) recs)) (\<lambda>ts.
        bind (collect (map (\<lambda>r. event_to_meters (Str (Event r))) recs)) (\<lambda>ms.
        Inr (map (\<lambda>i. \<lparr>src = recs ! i, time_sec = ts ! i, event_m = ms ! i,
                        date = to_datetime (map Date recs) i\<rparr>)
               [0..<length recs]))))"

subsection \<open>The sort key held in the session\<close>

record sort_state =
  column :: string
  ascending :: bool

definition columns :: "string list" where
  "columns = [''Event'', ''Time'', ''Category'', ''Club'', ''Region'', ''Location'', ''Date'']"

definition initial_sort :: sort_state where
  "initial_sort = \<lparr>column = ''Event'', ascending = True\<rparr>"

definition click :: "string \<Rightarrow> sort_state \<Rightarrow> sort_state" where
  \<comment> \<open>lines 142 to 145: the button of column \<open>col\<close> is pressed\<close>
  "click col st =
     (if column st = col then st\<lparr>ascending := \<not> ascending st\<rparr>
      else \<lparr>column = col, ascending = True\<rparr>)"

subsection \<open>Applying the sort\<close>

datatype na_position = First | Last

datatype ui_message = St_error py_exc

definition sort_mapping :: "(string \<times> string) list" where
  "sort_mapping = [(''Event'', ''_event_m''), (''Time'', ''_time_sec''), (''Date'', ''_date'')]"

definition apply_sorting ::
  "(string \<Rightarrow> bool \<Rightarrow> na_position \<Rightarrow> row list \<Rightarrow> py_exc + row list) \<Rightarrow>
   row list \<Rightarrow> string \<Rightarrow> bool \<Rightarrow> (py_exc + row list) \<times> ui_message list" where
  \<comment> \<open>lines 151 to 161. \<open>sort_values by asc na df\<close> stands for the library call
      \<^verbatim>\<open>df.sort_values(by, ascending=asc, na_position=na)\<close>. The result is the sorted
      frame, or the exception that leaves \<^verbatim>\<open>main\<close>, with the messages shown.\<close>
  "apply_sorting sort_values df sort_col sort_asc =
     (let sort_by = (case map_of sort_mapping sort_col of Some c \<Rightarrow> c | None \<Rightarrow> sort_col)
      in case sort_values sort_by sort_asc Last df of
           Inr df' \<Rightarrow> (Inr df', [])
         | Inl e \<Rightarrow>
             if is_Exception e
             then (sort_values sort_col sort_asc Last df, [St_error e])
             else (Inl e, []))"

subsection \<open>What \<^verbatim>\<open>sort_values\<close> guarantees\<close>

fun float_le :: "pyfloat \<Rightarrow> pyfloat \<Rightarrow> bool" where
  "float_le NaN _ = False"
| "float_le _ NaN = False"
| "float_le NInf _ = True"
| "float_le _ PInf = True"
| "float_le (Finite a) (Finite b) = (a \<le> b)"
| "float_le _ _ = False"

fun num_val :: "pynum \<Rightarrow> pyfloat" where
  "num_val (PyInt i) = Finite (of_int i)"
| "num_val (PyFloat f) = f"

definition py_eq :: "pynum \<Rightarrow> pynum \<Rightarrow> bool" where
  \<comment> \<open>\<^verbatim>\<open>a == b\<close> on numbers\<close>
  "py_eq a b = (float_le (num_val a) (num_val b) \<and> float_le (num_val b) (num_val a))"

fun isna :: "cell \<Rightarrow> bool" where
  "isna (CNum (PyFloat NaN)) = True"
| "isna (CDate None) = True"
| "isna _ = False"

fun cell_le :: "cell \<Rightarrow> cell \<Rightarrow> bool" where
  "cell_le (CStr a) (CStr b) = (a \<le> b)"
| "cell_le (CNum a) (CNum b) = float_le (num_val a) (num_val b)"
| "cell_le (CDate (Some a)) (CDate (Some b)) = (a \<le> b)"
| "cell_le _ _ = False"

definition key_isna :: "string \<Rightarrow> row \<Rightarrow> bool" where
  "key_isna by r = (case cell_of by r of Some c \<Rightarrow> isna c | None \<Rightarrow> False)"

definition key_le :: "string \<Rightarrow> row \<Rightarrow> row \<Rightarrow> bool" where
  "key_le by a b =
     (case (cell_of by a, cell_of by b) of (Some x, Some y) \<Rightarrow> cell_le x y | _ \<Rightarrow> False)"

definition sort_values_post ::
  "string \<Rightarrow> bool \<Rightarrow> na_position \<Rightarrow> row list \<Rightarrow> row list \<Rightarrow> bool" where
  \<comment> \<open>Modelled from the spec: \<^verbatim>\<open>DataFrame.sort_values\<close> is library code, not part of
      \<^verbatim>\<open>app.py\<close>. Section 4.3 of the specification: the rows are those of the input,
      ordered by the value in the chosen column, ascending or descending; the rows whose
      value is missing come last (first, for the other \<^verbatim>\<open>na_position\<close>) in either
      direction. Nothing is said here about the order of rows with equal values.\<close>
  "sort_values_post by asc na df out =
     (let present = filter (\<lambda>r. \<not> key_isna by r) out;
          missing = filter (key_isna by) out
      in mset out = mset df
         \<and> out = (case na of Last \<Rightarrow> present @ missing | First \<Rightarrow> missing @ present)
         \<and> sorted_wrt (\<lambda>a b. if asc then key_le by a b else key_le by b a) present)"

definition sort_values_contract ::
  "(string \<Rightarrow> bool \<Rightarrow> na_position \<Rightarrow> row list \<Rightarrow> py_exc + row list) \<Rightarrow> bool" where
  "sort_values_contract sort_values =
     (\<forall>by asc na df out. sort_values by asc na df = Inr out \<longrightarrow>
        sort_values_post by asc na df out)"

fun insort_by :: "('a \<Rightarrow> 'a \<Rightarrow> bool) \<Rightarrow> 'a \<Rightarrow> 'a list \<Rightarrow> 'a list" where
  "insort_by le x [] = [x]"
| "insort_by le x (y # ys) = (if le x y then x # y # ys else y # insort_by le x ys)"

definition sort_values_ref ::
  "string \<Rightarrow> bool \<Rightarrow> na_position \<Rightarrow> row list \<Rightarrow> py_exc + row list" where
  \<comment> \<open>Modelled from the spec: one implementation of \<^verbatim>\<open>DataFrame.sort_values\<close> (library
      code, not part of \<^verbatim>\<open>app.py\<close>) that meets \<open>sort_values_post\<close>, by insertion;
      a column that the frame does not have is a \<^verbatim>\<open>KeyError\<close>. It serves as the
      instance at which the theorems about \<open>apply_sorting\<close> are evaluated.\<close>
  "sort_values_ref by asc na df =
     (if cell_of by \<lparr>src = \<lparr>Event = [], Time = [], Category = [], Club = [], Region = [],
                             Location = [], Date = []\<rparr>,
                      time_sec = PyInt 0, event_m = PyInt 0, date = None\<rparr> = None
      then Inl KeyError
      else
        (let present = filter (\<lambda>r. \<not> key_isna by r) df;
             missing = filter (key_isna by) df;
             ordered = foldr (insort_by (\<lambda>a b. if asc then key_le by a b else key_le by b a))
                        present []
         in Inr (case na of Last \<Rightarrow> ordered @ missing | First \<Rightarrow> missing @ ordered)))"

definition sample_to_datetime :: "string list \<Rightarrow> nat \<Rightarrow> int option" where
  \<comment> \<open>an instance of the \<open>to_datetime\<close> parameter for evaluation: day-first dates of the
      form \<^verbatim>\<open>dd/mm/yyyy\<close> are given the number \<open>yyyymmdd\<close>, which orders them as the
      timestamps do; any other text is \<^verbatim>\<open>NaT\<close>\<close>
  "sample_to_datetime col i =
     (if i < length col then
        (case col ! i of
           [d1, d2, s1, m1, m2, s2, y1, y2, y3, y4] \<Rightarrow>
             if s1 = CHR ''/'' \<and> s2 = CHR ''/'' \<and> (\<forall>c \<in> set [d1, d2, m1, m2, y1, y2, y3, y4]. isdigit c)
             then Some (int_of_digits [y1, y2, y3, y4, m1, m2, d1, d2])
             else None
         | _ \<Rightarrow> None)
      else None)"

section \<open>The notions of the specification\<close>

text \<open>
  The words of the specification, for comparison with the code: a run of digits, a number
  of seconds with an optional fraction, the hour form \<^verbatim>\<open><H>h<M>'<S>\<close>, the tokens of a
  time between separators, and the leading whitespace-delimited token of an event.
\<close>

definition is_digits :: "string \<Rightarrow> bool" where
  "is_digits ds = (ds \<noteq> [] \<and> (\<forall>c \<in> set ds. isdigit c))"

definition is_decimal :: "string \<Rightarrow> bool" where
  \<comment> \<open>digits, optionally followed by a point and digits\<close>
  "is_decimal s =
     (takeWhile isdigit s \<noteq> [] \<and>
      (case dropWhile isdigit s of
         [] \<Rightarrow> True
       | c # fp \<Rightarrow> c = CHR ''.'' \<and> is_digits fp))"

definition decimal_value :: "string \<Rightarrow> rat" where
  "decimal_value s =
     of_int (int_of_digits (takeWhile isdigit s)) +
     (case dropWhile isdigit s of
        [] \<Rightarrow> 0
      | c # fp \<Rightarrow> of_int (int_of_digits fp) / 10 ^ length fp)"

definition is_quote :: "char \<Rightarrow> bool" where
  \<comment> \<open>the separators \<^verbatim>\<open>'\<close> and \<^verbatim>\<open>"\<close>\<close>
  "is_quote c = (c = CHR 0x27 \<or> c = CHR 0x22)"

definition hour_form_shape :: "string \<Rightarrow> bool" where
  \<comment> \<open>digits, \<^verbatim>\<open>h\<close>, digits, a separator, seconds with an optional fraction\<close>
  "hour_form_shape s =
     (takeWhile isdigit s \<noteq> [] \<and>
      (case dropWhile isdigit s of
         [] \<Rightarrow> False
       | c # r \<Rightarrow>
           c = CHR ''h'' \<and> takeWhile isdigit r \<noteq> [] \<and>
           (case dropWhile isdigit r of
              [] \<Rightarrow> False
            | sep # sec \<Rightarrow> is_quote sep \<and> is_decimal sec)))"

definition tokens :: "string \<Rightarrow> string list" where
  \<comment> \<open>the trimmed input split on either separator, empty tokens dropped\<close>
  "tokens s = filter (\<lambda>t. t \<noteq> []) (split_on is_quote (strip s))"

definition first_token :: "string \<Rightarrow> string" where
  \<comment> \<open>the leading whitespace-delimited token, empty if there is none\<close>
  "first_token s = takeWhile (\<lambda>c. \<not> isspace c) (dropWhile isspace s)"



definition nonneg_float :: "pyfloat \<Rightarrow> bool" where
  \<comment> \<open>zero, a positive number or the positive infinity\<close>
  "nonneg_float v = (case v of Finite r \<Rightarrow> 0 \<le> r | PInf \<Rightarrow> True | _ \<Rightarrow> False)"

definition comparator_column :: "string \<Rightarrow> string" where
  \<comment> \<open>the column whose values order the table when the user sorts on \<open>col\<close>\<close>
  "comparator_column col = (case map_of sort_mapping col of Some c \<Rightarrow> c | None \<Rightarrow> col)"

definition comparator_eq :: "string \<Rightarrow> row \<Rightarrow> row \<Rightarrow> bool" where
  \<comment> \<open>two rows have equal comparator values on the column \<open>col\<close>\<close>
  "comparator_eq col r1 r2 =
     (key_le (comparator_column col) r1 r2 \<and> key_le (comparator_column col) r2 r1)"

definition no_ties :: "string \<Rightarrow> row list \<Rightarrow> bool" where
  \<comment> \<open>no two rows of the frame have equal comparator values on \<open>col\<close>\<close>
  "no_ties col df = sorted_wrt (\<lambda>r1 r2. \<not> comparator_eq col r1 r2) df"

definition none_missing :: "string \<Rightarrow> row list \<Rightarrow> bool" where
  \<comment> \<open>no row of the frame has a missing comparator value on \<open>col\<close>\<close>
  "none_missing col df = (\<forall>r \<in> set df. \<not> key_isna (comparator_column col) r)"

definition safe_text :: "string \<Rightarrow> bool" where
  \<comment> \<open>a text without the letter \<^verbatim>\<open>n\<close> in either case and without a minus sign\<close>
  "safe_text s = (CHR ''n'' \<notin> set s \<and> CHR ''N'' \<notin> set s \<and> CHR ''-'' \<notin> set s)"

definition missing_last :: "row list \<Rightarrow> bool" where
  \<comment> \<open>no row with an unparsable date stands before a row with a parsable one\<close>
  "missing_last out =
     (\<forall>i j. i < j \<longrightarrow> j < length out \<longrightarrow> date (out ! i) = None \<longrightarrow> date (out ! j) = None)"

subsection \<open>A small data set\<close>

definition sample_records :: "athlete_record list" where
  "sample_records =
     [\<lparr>Event = ''800m'', Time = ''2'05'', Category = ''SEM'', Club = ''AC'', Region = ''N'',
        Location = ''Lille'', Date = ''15/03/2021''\<rparr>,
      \<lparr>Event = ''5km Road'', Time = ''16'40'', Category = ''SEM'', Club = ''AC'', Region = ''N'',
        Location = ''Lens'', Date = ''unknown''\<rparr>,
      \<lparr>Event = ''400m'', Time = ''58'', Category = ''SEM'', Club = ''AC'', Region = ''N'',
        Location = ''Arras'', Date = ''01/01/2020''\<rparr>]"

definition sample_rows :: "row list" where
  \<comment> \<open>the rows of the data set, with the derived columns\<close>
  "sample_rows =
     [\<lparr>src = sample_records ! 0, time_sec = PyFloat (Finite 125),
        event_m = PyFloat (Finite 800), date = Some 20210315\<rparr>,
      \<lparr>src = sample_records ! 1, time_sec = PyFloat (Finite 1000),
        event_m = PyInt 5001, date = None\<rparr>,
      \<lparr>src = sample_records ! 2, time_sec = PyFloat (Finite 58),
        event_m = PyFloat (Finite 400), date = Some 20200101\<rparr>]"

definition failing_sort ::
  "string \<Rightarrow> bool \<Rightarrow> na_position \<Rightarrow> row list \<Rightarrow> py_exc + row list" where
  \<comment> \<open>an instance of the \<open>sort_values\<close> parameter for evaluation: the library call runs
      out of memory whenever it is made\<close>
  "failing_sort by asc na df = Inl (OtherException ''MemoryError'')"

definition failing_projection_sort ::
  "string \<Rightarrow> bool \<Rightarrow> na_position \<Rightarrow> row list \<Rightarrow> py_exc + row list" where
  \<comment> \<open>an instance of the \<open>sort_values\<close> parameter for evaluation: the library call fails
      on the derived column of times and works on every other column\<close>
  "failing_projection_sort by asc na df =
     (if by = ''_time_sec'' then Inl (OtherException ''MemoryError'')
      else sort_values_ref by asc na df)"

section \<open>Facts about rounding\<close>

lemma blen_pos: "0 < n \<Longrightarrow> 1 \<le> blen n"
proof (induction n rule: blen.induct)
  case (1 n)
  show ?case
  proof (cases "n div 2 \<le> 0")
    case True
    then have "blen (n div 2) = 0" by (simp add: blen.simps)
    with 1 show ?thesis by (simp add: blen.simps[of n])
  next
    case False
    with 1 show ?thesis by (simp add: blen.simps[of n])
  qed
qed

lemma blen_bounds:
  "0 < n \<Longrightarrow> (2::rat) powi (blen n - 1) \<le> of_int n \<and> of_int n < (2::rat) powi (blen n)"
proof (induction n rule: blen.induct)
  case (1 n)
  have bn: "blen n = 1 + blen (n div 2)" using 1(2) by (simp add: blen.simps[of n])
  show ?case
  proof (cases "n div 2 \<le> 0")
    case True
    then have "n = 1" using 1(2) by linarith
    moreover have "blen (n div 2) = 0" using True by (simp add: blen.simps)
    ultimately show ?thesis using bn by simp
  next
    case False
    then have h: "0 < n div 2" by simp
    have ih: "(2::rat) powi (blen (n div 2) - 1) \<le> of_int (n div 2)"
             "of_int (n div 2) < (2::rat) powi (blen (n div 2))"
      using 1(1)[OF _ h] 1(2) by auto
    have b1: "1 \<le> blen (n div 2)" using blen_pos[OF h] .
    define b where "b = blen (n div 2)"
    obtain k where k: "b = int k" "0 < k" using b1 b_def
      by (metis nat_0_le not_one_le_zero zero_less_iff_neq_zero int_ops(1) order.trans zero_le_one)
    have l: "(2::rat) ^ (k - 1) \<le> of_int (n div 2)" 
      using ih(1) k unfolding b_def[symmetric] by (simp add: power_int_diff power_diff)
    then have l': "(2::int) ^ (k - 1) \<le> n div 2"
      by (metis of_int_le_iff of_int_numeral of_int_power)
    have u: "of_int (n div 2) < (2::rat) ^ k"
      using ih(2) k unfolding b_def[symmetric] by simp
    then have u': "n div 2 < (2::int) ^ k"
      by (metis of_int_less_iff of_int_numeral of_int_power)
    have "2 * 2 ^ (k - 1) = (2::int) ^ k" using k(2) by (cases k) auto
    then have "(2::int) ^ k \<le> n" using l' by linarith
    moreover have "n < 2 * (2::int) ^ k" using u' by linarith
    ultimately have "(2::rat) ^ k \<le> of_int n" "of_int n < 2 * (2::rat) ^ k"
      by (metis of_int_le_iff of_int_numeral of_int_power,
          metis of_int_less_iff of_int_numeral of_int_power of_int_mult)
    then show ?thesis using bn k unfolding b_def[symmetric]
      by (simp add: power_int_add)
  qed
qed

lemma ilog2_correct:
  assumes "0 < a"
  shows "2 powi (ilog2 a) \<le> a \<and> a < 2 powi (ilog2 a + 1)"
proof -
  obtain n d where q: "quotient_of a = (n, d)" by (cases "quotient_of a")
  have d: "0 < d" using q quotient_of_denom_pos by blast
  have a: "a = of_int n / of_int d" using q quotient_of_div by blast
  have n: "0 < n" using assms a d by (simp add: zero_less_divide_iff)
  define g where "g = blen n - blen d"
  note bn = blen_bounds[OF n] and bd = blen_bounds[OF d]
  have dpos: "(0::rat) < of_int d" using d by simp
  have npos: "(0::rat) \<le> of_int n" using n by simp
  have p2: "\<And>k. (0::rat) < 2 powi k" by (simp add: zero_less_power_int)
  have "a < 2 powi (blen n) / 2 powi (blen d - 1)"
    unfolding a using frac_less[OF npos conjunct2[OF bn] p2 conjunct1[OF bd]] .
  also have "\<dots> = 2 powi (blen n - (blen d - 1))" by (subst power_int_diff) simp_all
  also have "blen n - (blen d - 1) = g + 1" unfolding g_def by simp
  finally have up: "a < 2 powi (g + 1)" .
  show ?thesis
  proof (cases "2 powi g \<le> a")
    case True
    then show ?thesis using up q by (simp add: ilog2_def g_def Let_def)
  next
    case False
    have "2 powi (blen n - 1) / 2 powi (blen d) < a"
      unfolding a using frac_less2[OF p2 conjunct1[OF bn] dpos conjunct2[OF bd]] .
    moreover have "2 powi (blen n - 1) / 2 powi (blen d) = (2::rat) powi (blen n - 1 - blen d)"
      by (subst power_int_diff) simp_all
    moreover have "blen n - 1 - blen d = g - 1" unfolding g_def by simp
    ultimately have "2 powi (g - 1) \<le> a" by simp
    then show ?thesis using False q by (simp add: ilog2_def g_def Let_def)
  qed
qed

lemma ilog2_unique:
  assumes "0 < a" "2 powi e \<le> a" "a < 2 powi (e + 1)"
  shows "ilog2 a = e"
proof -
  note c = ilog2_correct[OF assms(1)]
  have "\<not> e < ilog2 a"
  proof
    assume "e < ilog2 a"
    then have "e + 1 \<le> ilog2 a" by simp
    then have "(2::rat) powi (e + 1) \<le> 2 powi ilog2 a" by (simp add: power_int_increasing)
    with c assms show False by linarith
  qed
  moreover have "\<not> ilog2 a < e"
  proof
    assume "ilog2 a < e"
    then have "ilog2 a + 1 \<le> e" by simp
    then have "(2::rat) powi (ilog2 a + 1) \<le> 2 powi e" by (simp add: power_int_increasing)
    with c assms show False by linarith
  qed
  ultimately show ?thesis by simp
qed

lemma round_double_pos_eval:
  assumes "0 < q" "2 powi e \<le> q" "q < 2 powi (e + 1)" "- 1022 \<le> e"
  shows "round_double q =
    (let r = of_int (round_half_even (q / 2 powi (e - 52))) * 2 powi (e - 52)
     in if 2 ^ 1024 \<le> r then PInf else Finite r)"
proof -
  have "ilog2 q = e" using assms ilog2_unique by blast
  then show ?thesis using assms by (simp add: round_double_def round_pos_def Let_def max_def)
qed


lemma round_half_even_frac:
  assumes "0 < d"
  shows "round_half_even (of_int n / of_int d) = rhe_frac n d"
proof -
  have f: "\<lfloor>(of_int n / of_int d :: rat)\<rfloor> = n div d" by (simp add: floor_divide_of_int_eq)
  have dr: "(0::rat) < of_int d" using assms by simp
  have "of_int n = (of_int (n div d) * of_int d + of_int (n mod d) :: rat)"
    by (metis div_mult_mod_eq of_int_add of_int_mult)
  then have r: "(of_int n / of_int d :: rat) - of_int (n div d) = of_int (n mod d) / of_int d"
    using dr by (simp add: field_simps)
  have lt: "(of_int (n mod d) / of_int d < (1 / 2 :: rat)) = (2 * (n mod d) < d)"
  proof -
    have "(of_int (n mod d) / of_int d < (1 / 2 :: rat)) = ((of_int (2 * (n mod d)) :: rat) < of_int d)"
      using dr by (simp add: field_simps)
    then show ?thesis by (simp only: of_int_less_iff)
  qed
  have gt: "((1 / 2 :: rat) < of_int (n mod d) / of_int d) = (d < 2 * (n mod d))"
  proof -
    have "((1 / 2 :: rat) < of_int (n mod d) / of_int d) = ((of_int d :: rat) < of_int (2 * (n mod d)))"
      using dr by (simp add: field_simps)
    then show ?thesis by (simp only: of_int_less_iff)
  qed
  show ?thesis
    unfolding round_half_even_def rhe_frac_def Let_def f r lt gt ..
qed

lemma round_double_frac_eval:
  assumes "0 < n" "0 < d" "2 powi e \<le> (of_int n / of_int d :: rat)"
    "(of_int n / of_int d :: rat) < 2 powi (e + 1)" "- 1022 \<le> e"
  shows "round_double (of_int n / of_int d) =
    (let r = of_int (if e < 52 then rhe_frac (n * 2 ^ nat (52 - e)) d
                     else rhe_frac n (d * 2 ^ nat (e - 52))) * 2 powi (e - 52)
     in if 2 ^ 1024 \<le> r then PInf else Finite r)"
proof -
  have q: "(0::rat) < of_int n / of_int d" using assms by simp
  have "round_half_even ((of_int n / of_int d :: rat) / 2 powi (e - 52)) =
    (if e < 52 then rhe_frac (n * 2 ^ nat (52 - e)) d else rhe_frac n (d * 2 ^ nat (e - 52)))"
  proof (cases "e < 52")
    case True
    then have "e - 52 = - int (nat (52 - e))" by simp
    then have "(2::rat) powi (e - 52) = 1 / 2 ^ nat (52 - e)"
      by (metis power_int_minus_divide power_int_of_nat)
    then have "(of_int n / of_int d :: rat) / 2 powi (e - 52) =
               of_int (n * 2 ^ nat (52 - e)) / of_int d"
      by simp
    then show ?thesis
      using True round_half_even_frac[OF assms(2), of "n * 2 ^ nat (52 - e)"] by (simp only: if_True)
  next
    case False
    then have "e - 52 = int (nat (e - 52))" by simp
    then have "(2::rat) powi (e - 52) = 2 ^ nat (e - 52)"
      by (metis power_int_of_nat)
    then have "(of_int n / of_int d :: rat) / 2 powi (e - 52) =
               of_int n / of_int (d * 2 ^ nat (e - 52))"
      by simp
    moreover have "0 < d * 2 ^ nat (e - 52)" using assms(2) by simp
    ultimately show ?thesis
      using False round_half_even_frac[of "d * 2 ^ nat (e - 52)" n] by (simp only: if_False)
  qed
  then show ?thesis
    using round_double_pos_eval[OF q assms(3,4,5)] by (simp add: Let_def)
qed


lemma round_double_not_NaN: "round_double q \<noteq> NaN"
  by (simp add: round_double_def)

lemma round_half_even_nonneg: "0 \<le> q \<Longrightarrow> 0 \<le> round_half_even q"
  by (simp add: round_half_even_def Let_def)

lemma round_pos_nonneg: "0 \<le> a \<Longrightarrow> 0 \<le> round_pos a"
  by (simp add: round_pos_def Let_def round_half_even_nonneg zero_less_power_int less_imp_le)

lemma round_double_nonneg: "0 \<le> q \<Longrightarrow> nonneg_float (round_double q)"
  by (simp add: round_double_def nonneg_float_def round_pos_nonneg)

lemma round_half_even_ge: "of_int k \<le> q \<Longrightarrow> k \<le> round_half_even q"
proof -
  assume "of_int k \<le> q"
  then have "k \<le> \<lfloor>q\<rfloor>" by (simp add: le_floor_iff)
  then show ?thesis by (simp add: round_half_even_def Let_def)
qed

lemma round_double_overflow:
  assumes "2 ^ 1024 \<le> q"
  shows "round_double q = PInf"
proof -
  define P :: rat where "P = 2 ^ 1024"
  have P: "P = 2 powi 1024" unfolding P_def by (metis power_int_numeral)
  have Pq: "P \<le> q" using assms unfolding P_def .
  have "0 < P" unfolding P_def by (rule zero_less_power) simp
  then have q: "0 < q" using Pq by simp
  define e where "e = ilog2 q"
  note c = ilog2_correct[OF q, folded e_def]
  have lt: "P < 2 powi (e + 1)" using c Pq by linarith
  have e: "1024 \<le> e"
  proof (rule ccontr)
    assume "\<not> 1024 \<le> e"
    then have "e + 1 \<le> 1024" by simp
    then have "(2::rat) powi (e + 1) \<le> 2 powi 1024" by (intro power_int_increasing) simp_all
    with lt show False unfolding P by simp
  qed
  define u :: rat where "u = 2 powi (e - 52)"
  have u: "0 < u" by (simp add: u_def zero_less_power_int)
  have eu: "(2::rat) ^ 52 * u = 2 powi e" unfolding u_def
    using power_int_add[of "2::rat" 52 "e - 52"] by simp
  then have "(2::rat) ^ 52 * u \<le> q" using c by simp
  then have "(2::rat) ^ 52 \<le> q / u" using u by (simp add: pos_le_divide_eq)
  then have "of_int (2 ^ 52) \<le> q / u" by simp
  then have "2 ^ 52 \<le> round_half_even (q / u)" by (rule round_half_even_ge)
  then have "(2::rat) ^ 52 \<le> of_int (round_half_even (q / u))"
    by (metis of_int_le_iff of_int_numeral of_int_power)
  then have "(2::rat) ^ 52 * u \<le> of_int (round_half_even (q / u)) * u"
    using u by (simp add: mult_right_mono)
  moreover have "P \<le> 2 powi e" unfolding P using e by (intro power_int_increasing) simp_all
  ultimately have "P \<le> of_int (round_half_even (q / u)) * u" using eu by linarith
  moreover have "max e (- 1022) = e" using e by simp
  ultimately have "P \<le> round_pos q"
    by (simp add: round_pos_def Let_def e_def[symmetric] u_def[symmetric])
  then show ?thesis using q unfolding round_double_def P_def by simp
qed

lemma int_to_float_overflow: "2 ^ 1024 \<le> n \<Longrightarrow> int_to_float n = Inl OverflowError"
proof -
  assume "2 ^ 1024 \<le> n"
  then have "(2::rat) ^ 1024 \<le> of_int n"
    by (metis of_int_le_iff of_int_numeral of_int_power)
  then show ?thesis by (simp add: int_to_float_def round_double_overflow)
qed

lemma round_half_even_of_int: "round_half_even (of_int k) = k"
  by (simp add: round_half_even_def)

lemma round_double_of_int_exact:
  assumes "0 \<le> n" "n < 2 ^ 53"
  shows "round_double (of_int n) = Finite (of_int n)"
proof (cases "n = 0")
  case True
  then show ?thesis by (simp add: round_double_def)
next
  case False
  then have n: "0 < n" using assms by simp
  define e where "e = blen n - 1"
  have b: "(2::rat) powi e \<le> of_int n" "of_int n < (2::rat) powi (e + 1)"
    using blen_bounds[OF n] by (simp_all add: e_def)
  have e0: "0 \<le> e" using blen_pos[OF n] by (simp add: e_def)
  have "(of_int n :: rat) < 2 ^ 53" using assms(2)
    by (metis of_int_less_iff of_int_numeral of_int_power)
  then have lt: "(2::rat) powi e < 2 powi 53" using b(1) by simp
  have e52: "e \<le> 52"
  proof (rule ccontr)
    assume "\<not> e \<le> 52"
    then have "53 \<le> e" by simp
    then have "(2::rat) powi 53 \<le> 2 powi e" by (intro power_int_increasing) simp_all
    with lt show False by simp
  qed
  define k where "k = nat (52 - e)"
  have ek: "e - 52 = - int k" using e52 by (simp add: k_def)
  have u: "(2::rat) powi (e - 52) = 1 / 2 ^ k"
    unfolding ek by (metis power_int_minus_divide power_int_of_nat)
  have "(of_int n :: rat) / 2 powi (e - 52) = of_int (n * 2 ^ k)" by (simp add: u)
  then have "round_half_even ((of_int n :: rat) / 2 powi (e - 52)) = n * 2 ^ k"
    by (simp only: round_half_even_of_int)
  then have r: "(of_int (round_half_even ((of_int n :: rat) / 2 powi (e - 52))) :: rat)
      * 2 powi (e - 52) = of_int n"
    by (simp add: u)
  have small: "\<not> (2::rat) ^ 1024 \<le> of_int n"
  proof
    assume "(2::rat) ^ 1024 \<le> of_int n"
    moreover have "(2::rat) ^ 53 \<le> 2 ^ 1024" by (rule power_increasing) simp_all
    ultimately show False using \<open>(of_int n :: rat) < 2 ^ 53\<close> by linarith
  qed
  have q: "(0::rat) < of_int n" using n by simp
  have "- 1022 \<le> e" using e0 by simp
  from round_double_pos_eval[OF q b this] show ?thesis
    unfolding Let_def r using small by (simp only: if_False)
qed

lemma round_double_numeral:
  "(numeral k :: int) < 2 ^ 53 \<Longrightarrow> round_double (numeral k) = Finite (numeral k)"
  using round_double_of_int_exact[of "numeral k"] by simp

section \<open>Facts about the string operations\<close>

lemma isdigit_not:
  assumes "isdigit c"
  shows "c \<noteq> CHR ''h''" "c \<noteq> CHR 0x27" "c \<noteq> CHR 0x22" "c \<noteq> CHR ''_''" "c \<noteq> CHR ''.''"
    "c \<noteq> CHR ''-''" "c \<noteq> CHR ''+''" "c \<noteq> CHR ''m''" "\<not> isspace c" "\<not> num_space c"
    "\<not> is_quote c"
  using assms by (auto simp: isdigit_def isspace_def num_space_def is_quote_def)

lemma dropWhile_hd: "s \<noteq> [] \<Longrightarrow> \<not> p (hd s) \<Longrightarrow> dropWhile p s = s"
  by (cases s) auto

lemma strip_by_id: "s \<noteq> [] \<Longrightarrow> \<not> p (hd s) \<Longrightarrow> \<not> p (last s) \<Longrightarrow> strip_by p s = s"
  by (simp add: strip_by_def dropWhile_hd hd_rev)

lemma replace_chr_append:
  "replace_chr a b (x @ y) = replace_chr a b x @ replace_chr a b y"
  by (simp add: replace_chr_def)

lemma replace_chr_Cons:
  "replace_chr a b (c # x) = (if c = a then b else [c]) @ replace_chr a b x"
  by (simp add: replace_chr_def)

lemma replace_chr_id: "a \<notin> set x \<Longrightarrow> replace_chr a b x = x"
  by (induction x) (auto simp: replace_chr_def)

lemma split_once_append: "sep \<notin> set a \<Longrightarrow> split_once sep (a @ sep # r) = [a, r]"
proof -
  assume a: "sep \<notin> set a"
  then have "\<forall>x \<in> set a. x \<noteq> sep" by auto
  then have "takeWhile (\<lambda>c. c \<noteq> sep) (a @ sep # r) = a"
    and "dropWhile (\<lambda>c. c \<noteq> sep) (a @ sep # r) = sep # r"
    by (simp_all add: takeWhile_append2 dropWhile_append2)
  then show ?thesis by (simp add: split_once_def)
qed

lemma split_on_none: "\<forall>c \<in> set s. \<not> p c \<Longrightarrow> split_on p s = [s]"
  by (induction s) auto

lemma split_on_append:
  "\<forall>x \<in> set a. \<not> p x \<Longrightarrow> p c \<Longrightarrow> split_on p (a @ c # r) = a # split_on p r"
  by (induction a) auto

lemma split_on_subset: "x \<in> set (split_on p s) \<Longrightarrow> set x \<subseteq> set s"
proof (induction s arbitrary: x)
  case Nil
  then show ?case by simp
next
  case (Cons c cs)
  show ?case
  proof (cases "p c")
    case True
    with Cons.prems have "x = [] \<or> x \<in> set (split_on p cs)" by simp
    with Cons.IH show ?thesis by auto
  next
    case False
    show ?thesis
    proof (cases "split_on p cs")
      case Nil
      with False Cons.prems show ?thesis by simp
    next
      case (Cons t ts)
      with False Cons.prems have "x = c # t \<or> x \<in> set ts" by simp
      moreover have "set t \<subseteq> set cs" using Cons.IH[of t] Cons by simp
      moreover have "x \<in> set ts \<Longrightarrow> set x \<subseteq> set cs" using Cons.IH[of x] Cons by simp
      ultimately show ?thesis by auto
    qed
  qed
qed

lemma all_digits_takeWhile:
  "\<forall>c \<in> set s. isdigit c \<Longrightarrow> takeWhile isdigit s = s"
  "\<forall>c \<in> set s. isdigit c \<Longrightarrow> dropWhile isdigit s = []"
  by simp_all

lemma int_of_digits_app:
  "int_of_digits (a @ b) = int_of_digits a * 10 ^ length b + int_of_digits b"
  by (induction b rule: rev_induct) (simp_all add: int_of_digits_def algebra_simps)

lemma digit_val_nonneg: "isdigit c \<Longrightarrow> 0 \<le> digit_val c"
  by (auto simp: isdigit_def digit_val_def)

lemma int_of_digits_nonneg: "\<forall>c \<in> set ds. isdigit c \<Longrightarrow> 0 \<le> int_of_digits ds"
  by (induction ds rule: rev_induct) (simp_all add: int_of_digits_def digit_val_nonneg)

lemma underscores_ok_none:
  "CHR ''_'' \<notin> set s \<Longrightarrow> p \<noteq> CHR ''_'' \<Longrightarrow> underscores_ok p s"
  by (induction s arbitrary: p) auto

lemma filter_neq_id: "c \<notin> set s \<Longrightarrow> filter (\<lambda>x. x \<noteq> c) s = s"
  by (induction s) auto

lemma is_digits_ends:
  assumes "is_digits ds"
  shows "ds \<noteq> []" "isdigit (hd ds)" "isdigit (last ds)" "\<forall>c \<in> set ds. isdigit c"
  using assms by (auto simp: is_digits_def)

lemma takeWhile_digits:
  "\<forall>c \<in> set ds. isdigit c \<Longrightarrow> takeWhile isdigit (ds @ r) = ds @ takeWhile isdigit r"
  "\<forall>c \<in> set ds. isdigit c \<Longrightarrow> dropWhile isdigit (ds @ r) = dropWhile isdigit r"
  by (simp_all add: takeWhile_append2 dropWhile_append2)

lemma split_sign_digit: "s \<noteq> [] \<Longrightarrow> isdigit (hd s) \<Longrightarrow> split_sign s = (False, s)"
  by (cases s) (simp_all add: split_sign_def isdigit_not)

lemma py_int_digits:
  assumes "is_digits ds" "int (length ds) \<le> int_max_str_digits"
  shows "py_int ds = Inr (int_of_digits ds)"
proof -
  note d = is_digits_ends[OF assms(1)]
  have s: "strip_by num_space ds = ds"
    using d by (intro strip_by_id) (simp_all add: isdigit_not)
  have g: "split_on (\<lambda>c. c = CHR ''_'') ds = [ds]"
    using d by (intro split_on_none) (simp add: isdigit_not)
  show ?thesis
    using d assms(2) by (simp add: py_int_def s g split_sign_digit)
qed

lemma is_decimal_cases:
  assumes "is_decimal s"
  obtains (whole) "is_digits s"
  | (frac) ip fp where "is_digits ip" "is_digits fp" "s = ip @ CHR ''.'' # fp"
proof -
  define ip where "ip = takeWhile isdigit s"
  define r where "r = dropWhile isdigit s"
  have s: "s = ip @ r" by (simp add: ip_def r_def)
  have ip: "is_digits ip"
    using assms by (auto simp: is_decimal_def ip_def is_digits_def dest: set_takeWhileD)
  show thesis
  proof (cases r)
    case Nil
    with s ip whole show ?thesis by simp
  next
    case (Cons c fp)
    with assms have "c = CHR ''.''" "is_digits fp"
      by (auto simp: is_decimal_def r_def)
    with s ip Cons frac show ?thesis by simp
  qed
qed

lemma decimal_value_whole: "is_digits s \<Longrightarrow> decimal_value s = of_int (int_of_digits s)"
  by (simp add: decimal_value_def is_digits_def all_digits_takeWhile)

lemma decimal_value_frac:
  assumes "is_digits ip"
  shows "decimal_value (ip @ CHR ''.'' # fp) =
         of_int (int_of_digits ip) + of_int (int_of_digits fp) / 10 ^ length fp"
proof -
  have "\<forall>c \<in> set ip. isdigit c" using assms by (simp add: is_digits_def)
  then have "takeWhile isdigit (ip @ CHR ''.'' # fp) = ip"
    and "dropWhile isdigit (ip @ CHR ''.'' # fp) = CHR ''.'' # fp"
    by (simp_all add: takeWhile_digits isdigit_def)
  then show ?thesis by (simp add: decimal_value_def)
qed

lemma is_decimal_chars:
  assumes "is_decimal s"
  shows "s \<noteq> []" "isdigit (hd s)" "isdigit (last s)" "\<forall>c \<in> set s. isdigit c \<or> c = CHR ''.''"
proof -
  from assms show "s \<noteq> []" by (cases rule: is_decimal_cases) (auto simp: is_digits_def)
  from assms show "isdigit (hd s)"
    by (cases rule: is_decimal_cases) (auto simp: is_digits_def hd_append)
  from assms show "isdigit (last s)"
    by (cases rule: is_decimal_cases) (auto simp: is_digits_def)
  from assms show "\<forall>c \<in> set s. isdigit c \<or> c = CHR ''.''"
    by (cases rule: is_decimal_cases) (auto simp: is_digits_def)
qed

lemma parse_decimal_whole:
  assumes "is_digits s"
  shows "parse_decimal s = Some (int_of_digits s, 0)"
proof -
  have t: "takeWhile isdigit s = s" "dropWhile isdigit s = []"
    using assms by (simp_all add: is_digits_def)
  have "s \<noteq> []" using assms by (simp add: is_digits_def)
  then show ?thesis
    by (simp add: parse_decimal_def parse_exponent_def Let_def t)
qed

lemma parse_decimal_frac:
  assumes "is_digits ip" "is_digits fp"
  shows "parse_decimal (ip @ CHR ''.'' # fp) = Some (int_of_digits (ip @ fp), - int (length fp))"
proof -
  have "\<forall>c \<in> set ip. isdigit c" using assms by (simp add: is_digits_def)
  then have t1: "takeWhile isdigit (ip @ CHR ''.'' # fp) = ip"
    "dropWhile isdigit (ip @ CHR ''.'' # fp) = CHR ''.'' # fp"
    by (simp_all add: takeWhile_digits isdigit_def)
  have t2: "takeWhile isdigit fp = fp" "dropWhile isdigit fp = []"
    using assms by (simp_all add: is_digits_def)
  have "ip \<noteq> []" using assms by (simp add: is_digits_def)
  then show ?thesis
    by (simp add: parse_decimal_def parse_exponent_def Let_def t1 t2)
qed

lemma py_float_decimal:
  assumes "is_decimal s"
  shows "py_float s = Inr (round_double (decimal_value s))"
proof -
  note c = is_decimal_chars[OF assms]
  have nu: "CHR ''_'' \<notin> set s" using c(4) isdigit_not(4) by fastforce
  have u: "underscores_ok (CHR 0x00) s" using nu by (intro underscores_ok_none) simp_all
  have f: "filter (\<lambda>c. c \<noteq> CHR ''_'') s = s" using nu by (rule filter_neq_id)
  have st: "strip_by num_space s = s" using c by (intro strip_by_id) (simp_all add: isdigit_not)
  have sg: "split_sign s = (False, s)" using c by (intro split_sign_digit)
  from assms show ?thesis
  proof (cases rule: is_decimal_cases)
    case whole
    then show ?thesis
      by (simp add: py_float_def u f st sg parse_decimal_whole decimal_value_whole)
  next
    case (frac ip fp)
    have "(of_int (int_of_digits (ip @ fp)) :: rat) * 10 powi (- int (length fp)) =
          of_int (int_of_digits ip) + of_int (int_of_digits fp) / 10 ^ length fp"
      by (simp add: int_of_digits_app power_int_minus field_simps)
    then show ?thesis
      using frac u f st sg
      by (simp add: py_float_def parse_decimal_frac decimal_value_frac)
  qed
qed

lemma py_float_digits:
  "is_digits ds \<Longrightarrow> py_float ds = Inr (round_double (of_int (int_of_digits ds)))"
proof -
  assume d: "is_digits ds"
  then have "is_decimal ds" by (simp add: is_decimal_def is_digits_def all_digits_takeWhile)
  then show ?thesis using py_float_decimal decimal_value_whole[OF d] by simp
qed

section \<open>The parsers\<close>

lemmas parser_defs =
  time_to_seconds_def time_to_seconds_try_def hour_form_def event_to_meters_def
  event_to_meters_try_def bind_def clean_def strip_def strip_by_def replace_chr_def
  split_once_def re_split_quotes_def py_split_def re_match_digits_m_def py_int_def
  py_float_def split_sign_def parse_decimal_def parse_exponent_def parse_inf_or_nan_def
  to_lower_def int_of_digits_def digit_val_def isspace_def isdigit_def num_space_def
  int_max_str_digits_def road_events_def int_to_float_def Let_def

subsection \<open>The trimmed and normalised text\<close>

lemma set_dropWhile_keep: "c \<in> set s \<Longrightarrow> \<not> p c \<Longrightarrow> c \<in> set (dropWhile p s)"
  by (induction s) auto

lemma strip_by_keep: "c \<in> set s \<Longrightarrow> \<not> p c \<Longrightarrow> c \<in> set (strip_by p s)"
  by (simp add: strip_by_def set_dropWhile_keep)

lemma strip_by_subset: "set (strip_by p s) \<subseteq> set s"
proof
  fix c
  assume "c \<in> set (strip_by p s)"
  then have "c \<in> set (dropWhile p (rev (dropWhile p s)))" by (simp add: strip_by_def)
  then have "c \<in> set (dropWhile p s)" using set_dropWhileD by fastforce
  then show "c \<in> set s" by (rule set_dropWhileD)
qed

lemma replace_chr_single: "replace_chr a [b] s = map (\<lambda>c. if c = a then b else c) s"
  by (induction s) (simp_all add: replace_chr_def)

lemma replace_chr_nil: "replace_chr a [] s = filter (\<lambda>c. c \<noteq> a) s"
  by (induction s) (simp_all add: replace_chr_def)

lemma clean_map: "clean s = map (\<lambda>c. if c = CHR 0x22 then CHR 0x27 else c) (strip s)"
  by (simp add: clean_def replace_chr_single)

lemma h_in_clean: "CHR ''h'' \<in> set (clean s) \<longleftrightarrow> CHR ''h'' \<in> set s"
proof
  assume "CHR ''h'' \<in> set (clean s)"
  then have "CHR ''h'' \<in> set (strip s)" by (auto simp: clean_map split: if_splits)
  then show "CHR ''h'' \<in> set s" using strip_by_subset by (auto simp: strip_def)
next
  assume "CHR ''h'' \<in> set s"
  then have "CHR ''h'' \<in> set (strip s)"
    unfolding strip_def by (rule strip_by_keep) (simp add: isspace_def)
  then show "CHR ''h'' \<in> set (clean s)" by (force simp: clean_map)
qed

lemma hour_form_unfold:
  assumes "CHR ''h'' \<in> set c"
  shows "hour_form c =
     (let h_part = takeWhile (\<lambda>x. x \<noteq> CHR ''h'') c;
          rest = tl (dropWhile (\<lambda>x. x \<noteq> CHR ''h'') c);
          m_part = takeWhile (\<lambda>x. x \<noteq> CHR 0x27) rest;
          s_part = tl (dropWhile (\<lambda>x. x \<noteq> CHR 0x27) rest)
      in if CHR 0x27 \<notin> set rest then Inl ValueError
         else bind (py_int h_part) (\<lambda>h.
              bind (py_int m_part) (\<lambda>m.
              bind (py_float (filter (\<lambda>x. x \<noteq> CHR 0x27) s_part)) (\<lambda>s.
              bind (int_to_float (h * 3600 + m * 60)) (\<lambda>hm.
              Inr (PyFloat (fadd hm s)))))))"
  using assms by (simp add: hour_form_def split_once_def bind_def Let_def replace_chr_nil)

text \<open>
  C3, as the code has it. An input that contains \<^verbatim>\<open>h\<close> is decided by the hour branch
  alone and never reaches the later steps: with \<open>H\<close> the text before the first \<^verbatim>\<open>h\<close>,
  \<open>M\<close> the text from there to the next apostrophe and \<open>S\<close> the text after it with every
  further apostrophe deleted (quotation marks count as apostrophes), the result is
  \<open>H*3600 + M*60 + S\<close> when \<open>int\<close> accepts \<open>H\<close> and \<open>M\<close>, \<open>float\<close> accepts \<open>S\<close> and the
  integer converts to a float, and the sentinel \<open>0\<close> in every other case.
\<close>

theorem hour_branch_decides:
  assumes "CHR ''h'' \<in> set s"
  shows "time_to_seconds (Str s) =
     (let h_part = takeWhile (\<lambda>x. x \<noteq> CHR ''h'') (clean s);
          rest = tl (dropWhile (\<lambda>x. x \<noteq> CHR ''h'') (clean s));
          m_part = takeWhile (\<lambda>x. x \<noteq> CHR 0x27) rest;
          s_part = tl (dropWhile (\<lambda>x. x \<noteq> CHR 0x27) rest)
      in if CHR 0x27 \<notin> set rest then Inr (PyInt 0)
         else case py_int h_part of Inl _ \<Rightarrow> Inr (PyInt 0) | Inr H \<Rightarrow>
              case py_int m_part of Inl _ \<Rightarrow> Inr (PyInt 0) | Inr M \<Rightarrow>
              case py_float (filter (\<lambda>x. x \<noteq> CHR 0x27) s_part) of
                Inl _ \<Rightarrow> Inr (PyInt 0) | Inr S \<Rightarrow>
              case int_to_float (H * 3600 + M * 60) of
                Inl _ \<Rightarrow> Inr (PyInt 0) | Inr hm \<Rightarrow> Inr (PyFloat (fadd hm S)))"
proof -
  have h: "CHR ''h'' \<in> set (clean s)" using assms by (simp add: h_in_clean)
  have "time_to_seconds (Str s) =
        (case hour_form (clean s) of Inl _ \<Rightarrow> Inr (PyInt 0) | Inr v \<Rightarrow> Inr v)"
    using h by (simp add: time_to_seconds_def time_to_seconds_try_def bind_def)
  then show ?thesis
    by (simp add: hour_form_unfold[OF h] bind_def Let_def split: sum.split)
qed

theorem hour_branch_decides_witness:
  "CHR ''h'' \<in> set ''2h3'4'5'' \<and>
   time_to_seconds (Str ''2h3'4'5'') = Inr (PyFloat (Finite 7425))"
  using hour_branch_decides [of "''2h3'4'5''"]
  by (simp add: parser_defs round_double_numeral)

theorem extra_apostrophe_counterexample:
  "CHR ''h'' \<in> set ''2h3'4'5'' \<and> \<not> hour_form_shape ''2h3'4'5'' \<and>
   time_to_seconds (Str ''2h3'4'5'') = Inr (PyFloat (Finite 7425)) \<and>
   \<not> py_eq (PyFloat (Finite 7425)) (PyInt 0)"
  by (simp add: parser_defs round_double_numeral hour_form_shape_def is_decimal_def
      is_digits_def is_quote_def py_eq_def)

subsection \<open>The value on well-formed times\<close>

lemma isdigit_is_quote: "is_quote c \<Longrightarrow> \<not> isdigit c"
  by (auto simp: is_quote_def isdigit_def)

lemma decimal_no_special:
  assumes "is_decimal t"
  shows "CHR ''h'' \<notin> set t" "CHR 0x27 \<notin> set t" "CHR 0x22 \<notin> set t"
  using is_decimal_chars(4)[OF assms] isdigit_not(1,2,3) by fastforce+

lemma digits_no_special:
  assumes "is_digits t"
  shows "CHR ''h'' \<notin> set t" "CHR 0x27 \<notin> set t" "CHR 0x22 \<notin> set t"
  using is_digits_ends(4)[OF assms] isdigit_not(1,2,3) by fastforce+

lemma hour_shape_result:
  assumes "is_digits H" "is_digits M" "is_quote sep" "is_decimal S"
    "int (length H) \<le> int_max_str_digits" "int (length M) \<le> int_max_str_digits"
  shows "time_to_seconds (Str (H @ ''h'' @ M @ sep # S)) =
    (case int_to_float (int_of_digits H * 3600 + int_of_digits M * 60) of
       Inl _ \<Rightarrow> Inr (PyInt 0)
     | Inr hm \<Rightarrow> Inr (PyFloat (fadd hm (round_double (decimal_value S)))))"
proof -
  define s where "s = H @ ''h'' @ M @ sep # S"
  note h = is_digits_ends[OF assms(1)] and d = is_decimal_chars[OF assms(4)]
  have "s \<noteq> []" "hd s = hd H" "last s = last S"
    using h(1) d(1) by (simp_all add: s_def hd_append)
  then have st: "strip s = s"
    unfolding strip_def using h(2) d(3) by (intro strip_by_id) (simp_all add: isdigit_not)
  have "replace_chr (CHR 0x22) [CHR 0x27] (H @ ''h'' @ M @ sep # S) =
        H @ CHR ''h'' # M @ CHR 0x27 # S"
    using assms(3) digits_no_special(3)[OF assms(1)] digits_no_special(3)[OF assms(2)]
      decimal_no_special(3)[OF assms(4)]
    by (auto simp: replace_chr_append replace_chr_Cons replace_chr_id is_quote_def)
  then have cl: "clean s = H @ CHR ''h'' # M @ CHR 0x27 # S"
    unfolding clean_def st unfolding s_def .
  have hin: "CHR ''h'' \<in> set (clean s)" by (simp add: cl)
  have sp1: "split_once (CHR ''h'') (H @ CHR ''h'' # M @ CHR 0x27 # S) = [H, M @ CHR 0x27 # S]"
    using digits_no_special(1)[OF assms(1)] by (rule split_once_append)
  have sp2: "split_once (CHR 0x27) (M @ CHR 0x27 # S) = [M, S]"
    using digits_no_special(2)[OF assms(2)] by (rule split_once_append)
  have rs: "replace_chr (CHR 0x27) [] S = S"
    using decimal_no_special(2)[OF assms(4)] by (rule replace_chr_id)
  have "hour_form (clean s) =
    bind (int_to_float (int_of_digits H * 3600 + int_of_digits M * 60)) (\<lambda>hm.
      Inr (PyFloat (fadd hm (round_double (decimal_value S)))))"
    by (simp add: hour_form_def cl sp1 sp2 rs bind_def py_int_digits[OF assms(1,5)]
        py_int_digits[OF assms(2,6)] py_float_decimal[OF assms(4)])
  then show ?thesis
    using hin unfolding s_def[symmetric]
    by (simp add: time_to_seconds_def time_to_seconds_try_def bind_def split: sum.split)
qed

lemma split_on_map:
  assumes "\<And>c. p (f c) = p c" "\<And>c. \<not> p c \<Longrightarrow> f c = c"
  shows "split_on p (map f s) = split_on p s"
  by (induction s) (simp_all add: assms split: list.split)

lemma parts_eq_tokens: "filter (\<lambda>p. p \<noteq> []) (re_split_quotes (clean s)) = tokens s"
proof -
  have q: "(\<lambda>c. c = CHR 0x27 \<or> c = CHR 0x22) = is_quote" by (auto simp: is_quote_def)
  have "split_on is_quote (map (\<lambda>c. if c = CHR 0x22 then CHR 0x27 else c) (strip s)) =
        split_on is_quote (strip s)"
    by (rule split_on_map) (auto simp: is_quote_def)
  then show ?thesis by (simp add: re_split_quotes_def q clean_map tokens_def)
qed

lemma in_some_piece: "c \<in> set s \<Longrightarrow> \<not> p c \<Longrightarrow> \<exists>t \<in> set (split_on p s). c \<in> set t"
proof (induction s)
  case Nil
  then show ?case by simp
next
  case (Cons x xs)
  show ?case
  proof (cases "c \<in> set xs")
    case True
    then obtain t where t: "t \<in> set (split_on p xs)" "c \<in> set t" using Cons by blast
    show ?thesis
    proof (cases "p x")
      case True
      with t show ?thesis by auto
    next
      case False
      then show ?thesis using t by (cases "split_on p xs") auto
    qed
  next
    case False
    then have "c = x" using Cons.prems by simp
    then show ?thesis using Cons.prems by (cases "split_on p xs") auto
  qed
qed

lemma no_h_from_tokens:
  assumes "\<forall>t \<in> set (tokens s). CHR ''h'' \<notin> set t"
  shows "CHR ''h'' \<notin> set (clean s)"
proof
  assume "CHR ''h'' \<in> set (clean s)"
  then have "CHR ''h'' \<in> set (strip s)" by (auto simp: clean_map split: if_splits)
  then obtain t where "t \<in> set (split_on is_quote (strip s))" "CHR ''h'' \<in> set t"
    using in_some_piece[of "CHR ''h''" "strip s" is_quote] by (auto simp: is_quote_def)
  then have "t \<in> set (tokens s)" "CHR ''h'' \<in> set t" by (auto simp: tokens_def)
  with assms show False by blast
qed

lemma time_without_h:
  assumes "CHR ''h'' \<notin> set (clean s)"
  shows "time_to_seconds_try (Str s) =
     (case tokens s of
        [p0, p1] \<Rightarrow>
          bind (py_float p0) (\<lambda>m. bind (py_float p1) (\<lambda>sec.
            Inr (PyFloat (fadd (fmul m (Finite 60)) sec))))
      | [p0, p1, p2] \<Rightarrow>
          bind (py_float p0) (\<lambda>m. bind (py_float p1) (\<lambda>sec. bind (py_float p2) (\<lambda>c.
          bind (fdiv c (Finite 100)) (\<lambda>hundredths.
            Inr (PyFloat (fadd (fadd (fmul m (Finite 60)) sec) hundredths))))))
      | _ \<Rightarrow> bind (py_float (replace_chr (CHR 0x27) ''.'' (clean s))) (\<lambda>v. Inr (PyFloat v)))"
  using assms
  by (simp add: time_to_seconds_try_def bind_def Let_def parts_eq_tokens split: list.split)

lemma two_tokens_result:
  assumes "tokens s = [a, b]" "is_decimal a" "is_decimal b"
  shows "time_to_seconds (Str s) =
    Inr (PyFloat (fadd (fmul (round_double (decimal_value a)) (Finite 60))
                       (round_double (decimal_value b))))"
proof -
  have "CHR ''h'' \<notin> set (clean s)"
    using assms decimal_no_special(1) by (intro no_h_from_tokens) auto
  then show ?thesis
    by (simp add: time_to_seconds_def time_without_h assms(1) bind_def
        py_float_decimal[OF assms(2)] py_float_decimal[OF assms(3)])
qed

lemma three_tokens_result:
  assumes "tokens s = [a, b, c]" "is_decimal a" "is_decimal b" "is_decimal c"
  shows "\<exists>hs. fdiv (round_double (decimal_value c)) (Finite 100) = Inr hs \<and>
    time_to_seconds (Str s) =
    Inr (PyFloat (fadd (fadd (fmul (round_double (decimal_value a)) (Finite 60))
                             (round_double (decimal_value b))) hs))"
proof -
  have "CHR ''h'' \<notin> set (clean s)"
    using assms decimal_no_special(1) by (intro no_h_from_tokens) auto
  then show ?thesis
    by (simp add: time_to_seconds_def time_without_h assms(1) bind_def
        py_float_decimal[OF assms(2)] py_float_decimal[OF assms(3)]
        py_float_decimal[OF assms(4)])
qed

lemma plain_result:
  assumes "is_decimal s"
  shows "time_to_seconds (Str s) = Inr (PyFloat (round_double (decimal_value s)))"
proof -
  note d = is_decimal_chars[OF assms]
  have st: "strip s = s"
    unfolding strip_def using d by (intro strip_by_id) (simp_all add: isdigit_not)
  have cl: "clean s = s"
    using decimal_no_special(3)[OF assms] by (simp add: clean_def st replace_chr_id)
  have nq: "\<forall>c \<in> set s. \<not> is_quote c"
    using decimal_no_special(2,3)[OF assms] by (auto simp: is_quote_def)
  have tk: "tokens s = [s]" using d(1) by (simp add: tokens_def st split_on_none[OF nq])
  have "CHR ''h'' \<notin> set (clean s)" using decimal_no_special(1)[OF assms] by (simp add: cl)
  then show ?thesis
    using decimal_no_special(2)[OF assms]
    by (simp add: time_to_seconds_def time_without_h tk bind_def cl replace_chr_id
        py_float_decimal[OF assms])
qed

lemma round_4567: "round_double (4567 / 100) = Finite (3213740546593915 / 70368744177664)"
  using round_double_frac_eval[of 4567 100 5] by (simp add: rhe_frac_def Let_def)

lemma round_742567:
  "round_double (742567 / 100) = Finite (4082305254513705 / 549755813888)"
  using round_double_frac_eval[of 742567 100 12] by (simp add: rhe_frac_def Let_def)

lemma round_7380_plus:
  "round_double (522535072577754235 / 70368744177664) =
   Finite (4082305254513705 / 549755813888)"
  using round_double_frac_eval[of 522535072577754235 70368744177664 12]
  by (simp add: rhe_frac_def Let_def)

lemma round_67: "round_double (67 / 100) = Finite (6034823500676465 / 9007199254740992)"
  using round_double_frac_eval[of 67 100 "- 1"] by (simp add: rhe_frac_def Let_def)

lemma round_22567:
  "round_double (22567 / 100) = Finite (7940057249286717 / 35184372088832)"
  using round_double_frac_eval[of 22567 100 7] by (simp add: rhe_frac_def Let_def)

lemma round_225_plus:
  "round_double (2032654655817399665 / 9007199254740992) =
   Finite (7940057249286717 / 35184372088832)"
  using round_double_frac_eval[of 2032654655817399665 9007199254740992 7]
  by (simp add: rhe_frac_def Let_def)

lemma example_hour: "time_to_seconds (Str ''2h03'45.67'') = Inr (PyFloat (round_double (742567 / 100)))"
  by (simp add: parser_defs round_double_numeral round_4567 round_742567 round_7380_plus)

lemma example_three:
  \<open>time_to_seconds (Str ''3'45"67'') = Inr (PyFloat (round_double (22567 / 100)))\<close>
  by (simp add: parser_defs round_double_numeral round_67 round_22567 round_225_plus)

lemma example_plain: "time_to_seconds (Str ''45.30'') = Inr (PyFloat (round_double (4530 / 100)))"
  by (simp add: parser_defs round_double_numeral)


lemma neither_two_nor_three:
  "length xs \<noteq> 2 \<Longrightarrow> length xs \<noteq> 3 \<Longrightarrow>
   (case xs of [a, b] \<Rightarrow> f a b | [a, b, c] \<Rightarrow> g a b c | _ \<Rightarrow> d) = d"
  by (auto split: list.split)

lemma fallback_result:
  assumes "CHR ''h'' \<notin> set s" "length (tokens s) \<noteq> 2" "length (tokens s) \<noteq> 3"
  shows "time_to_seconds (Str s) =
     (case py_float (replace_chr (CHR 0x27) ''.'' (clean s)) of
        Inr v \<Rightarrow> Inr (PyFloat v)
      | Inl _ \<Rightarrow> Inr (PyInt 0))"
proof -
  have nh: "CHR ''h'' \<notin> set (clean s)" using assms(1) by (simp add: h_in_clean)
  have "time_to_seconds_try (Str s) =
        bind (py_float (replace_chr (CHR 0x27) ''.'' (clean s))) (\<lambda>v. Inr (PyFloat v))"
    unfolding time_without_h[OF nh] by (rule neither_two_nor_three[OF assms(2,3)])
  then show ?thesis
    by (simp add: time_to_seconds_def bind_def split: sum.split)
qed

lemma example_trailing:
  "time_to_seconds (Str (''45'' @ [CHR 0x27])) = Inr (PyFloat (Finite 45))"
  by (simp add: parser_defs round_double_numeral)
text \<open>
  C5, as the code has it. On well-formed inputs \<open>time_to_seconds\<close> returns the value of the
  grammar in binary64 arithmetic, a quotation mark counting as an apostrophe: the hour form
  \<^verbatim>\<open><H>h<M>'<S>\<close> gives \<open>H*3600 + M*60 + S\<close>, provided \<open>H\<close> and \<open>M\<close> have at most 4300
  digits and the integer \<open>H*3600 + M*60\<close> converts to a float; exactly two tokens give
  \<open>M*60 + S\<close>; exactly three give \<open>M*60 + S + C/100\<close>; otherwise, for a text without
  \<^verbatim>\<open>h\<close> whose tokens are neither two nor three, the whole text with each apostrophe
  turned into a point is parsed as plain seconds by \<^verbatim>\<open>float\<close> (the sentinel \<open>0\<close> when
  \<^verbatim>\<open>float\<close> rejects it), so that a plain number of seconds gives itself and \<^verbatim>\<open>45'\<close>
  gives \<open>45.0\<close>. The three examples of the specification have the values it states.
\<close>

theorem grammar_values:
  \<open>(is_digits H \<and> is_digits M \<and> is_quote sep \<and> is_decimal S \<and>
    int (length H) \<le> int_max_str_digits \<and> int (length M) \<le> int_max_str_digits \<and>
    int_to_float (int_of_digits H * 3600 + int_of_digits M * 60) = Inr hm \<longrightarrow>
      time_to_seconds (Str (H @ ''h'' @ M @ sep # S)) =
      Inr (PyFloat (fadd hm (round_double (decimal_value S))))) \<and>
   (tokens s = [a, b] \<and> is_decimal a \<and> is_decimal b \<longrightarrow>
      time_to_seconds (Str s) =
      Inr (PyFloat (fadd (fmul (round_double (decimal_value a)) (Finite 60))
                         (round_double (decimal_value b))))) \<and>
   (tokens s = [a, b, c] \<and> is_decimal a \<and> is_decimal b \<and> is_decimal c \<longrightarrow>
      (\<exists>hs. fdiv (round_double (decimal_value c)) (Finite 100) = Inr hs \<and>
        time_to_seconds (Str s) =
        Inr (PyFloat (fadd (fadd (fmul (round_double (decimal_value a)) (Finite 60))
                                 (round_double (decimal_value b))) hs)))) \<and>
   (CHR ''h'' \<notin> set s \<and> length (tokens s) \<noteq> 2 \<and> length (tokens s) \<noteq> 3 \<longrightarrow>
      time_to_seconds (Str s) =
        (case py_float (replace_chr (CHR 0x27) ''.'' (clean s)) of
           Inr v \<Rightarrow> Inr (PyFloat v)
         | Inl _ \<Rightarrow> Inr (PyInt 0))) \<and>
   (is_decimal s \<longrightarrow>
      time_to_seconds (Str s) = Inr (PyFloat (round_double (decimal_value s)))) \<and>
   time_to_seconds (Str (''45'' @ [CHR 0x27])) = Inr (PyFloat (Finite 45)) \<and>
   time_to_seconds (Str ''2h03'45.67'') = Inr (PyFloat (round_double (742567 / 100))) \<and>
   time_to_seconds (Str ''3'45"67'') = Inr (PyFloat (round_double (22567 / 100))) \<and>
   time_to_seconds (Str ''45.30'') = Inr (PyFloat (round_double (4530 / 100)))\<close>
proof (intro conjI impI)
  assume h: "is_digits H \<and> is_digits M \<and> is_quote sep \<and> is_decimal S \<and>
    int (length H) \<le> int_max_str_digits \<and> int (length M) \<le> int_max_str_digits \<and>
    int_to_float (int_of_digits H * 3600 + int_of_digits M * 60) = Inr hm"
  then show "time_to_seconds (Str (H @ ''h'' @ M @ sep # S)) =
      Inr (PyFloat (fadd hm (round_double (decimal_value S))))"
    using hour_shape_result[of H M sep S] by simp
next
  assume "tokens s = [a, b] \<and> is_decimal a \<and> is_decimal b"
  then show "time_to_seconds (Str s) =
      Inr (PyFloat (fadd (fmul (round_double (decimal_value a)) (Finite 60))
                         (round_double (decimal_value b))))"
    using two_tokens_result by blast
next
  assume "tokens s = [a, b, c] \<and> is_decimal a \<and> is_decimal b \<and> is_decimal c"
  then show "\<exists>hs. fdiv (round_double (decimal_value c)) (Finite 100) = Inr hs \<and>
        time_to_seconds (Str s) =
        Inr (PyFloat (fadd (fadd (fmul (round_double (decimal_value a)) (Finite 60))
                                 (round_double (decimal_value b))) hs))"
    using three_tokens_result by blast
next
  assume "CHR ''h'' \<notin> set s \<and> length (tokens s) \<noteq> 2 \<and> length (tokens s) \<noteq> 3"
  then show "time_to_seconds (Str s) =
        (case py_float (replace_chr (CHR 0x27) ''.'' (clean s)) of
           Inr v \<Rightarrow> Inr (PyFloat v)
         | Inl _ \<Rightarrow> Inr (PyInt 0))"
    using fallback_result by blast
next
  assume "is_decimal s"
  then show "time_to_seconds (Str s) = Inr (PyFloat (round_double (decimal_value s)))"
    by (rule plain_result)
qed (rule example_trailing example_hour example_three example_plain)+

theorem grammar_values_witness:
  "is_digits ''1'' \<and> is_digits ''02'' \<and> is_quote (CHR 0x27) \<and> is_decimal ''03.5'' \<and>
   int_to_float (int_of_digits ''1'' * 3600 + int_of_digits ''02'' * 60) = Inr (Finite 3720) \<and>
   time_to_seconds (Str ''1h02'03.5'') =
     Inr (PyFloat (fadd (Finite 3720) (round_double (decimal_value ''03.5'')))) \<and>
   tokens ''3'45'' = [''3'', ''45''] \<and> is_decimal ''3'' \<and> is_decimal ''45'' \<and>
   time_to_seconds (Str ''3'45'') =
     Inr (PyFloat (fadd (fmul (round_double (decimal_value ''3'')) (Finite 60))
                        (round_double (decimal_value ''45'')))) \<and>
   tokens ''1'2'3'4'' = [''1'', ''2'', ''3'', ''4''] \<and>
   py_float (replace_chr (CHR 0x27) ''.'' (clean ''1'2'3'4'')) = Inl ValueError \<and>
   time_to_seconds (Str ''1'2'3'4'') = Inr (PyInt 0) \<and>
   tokens (''45'' @ [CHR 0x27]) = [''45''] \<and>
   py_float (replace_chr (CHR 0x27) ''.'' (clean (''45'' @ [CHR 0x27]))) = Inr (Finite 45) \<and>
   time_to_seconds (Str (''45'' @ [CHR 0x27])) = Inr (PyFloat (Finite 45)) \<and>
   is_decimal ''45.30'' \<and>
   time_to_seconds (Str ''45.30'') = Inr (PyFloat (round_double (decimal_value ''45.30'')))"
proof -
  have 1: "is_digits ''1'' \<and> is_digits ''02'' \<and> is_quote (CHR 0x27) \<and> is_decimal ''03.5'' \<and>
    int (length ''1'') \<le> int_max_str_digits \<and> int (length ''02'') \<le> int_max_str_digits \<and>
    int_to_float (int_of_digits ''1'' * 3600 + int_of_digits ''02'' * 60) = Inr (Finite 3720)"
    by (simp add: is_digits_def is_decimal_def is_quote_def isdigit_def int_max_str_digits_def
        int_to_float_def int_of_digits_def digit_val_def round_double_numeral)
  have 2: "tokens ''3'45'' = [''3'', ''45''] \<and> is_decimal ''3'' \<and> is_decimal ''45''"
    by (simp add: tokens_def strip_def strip_by_def isspace_def is_quote_def is_decimal_def
        is_digits_def isdigit_def)
  have 3: "is_decimal ''45.30''"
    by (simp add: is_decimal_def is_digits_def isdigit_def)
  have 4: "tokens ''1'2'3'4'' = [''1'', ''2'', ''3'', ''4'']"
    "tokens (''45'' @ [CHR 0x27]) = [''45'']"
    by (simp_all add: tokens_def strip_def strip_by_def isspace_def is_quote_def)
  have 5: "py_float (replace_chr (CHR 0x27) ''.'' (clean ''1'2'3'4'')) = Inl ValueError"
    "py_float (replace_chr (CHR 0x27) ''.'' (clean (''45'' @ [CHR 0x27]))) = Inr (Finite 45)"
    by (simp_all add: parser_defs round_double_numeral)
  show ?thesis
    using 1 2 3 4 5
      grammar_values [of "''1''" "''02''" "CHR 0x27" "''03.5''" "Finite 3720" "''3'45''"
        "''3''" "''45''" c]
      grammar_values [of H M sep S hm "''45.30''" a b c]
      grammar_values [of H M sep S hm "''1'2'3'4''" a b c]
      grammar_values [of H M sep S hm "''45'' @ [CHR 0x27]" a b c]
    by simp
qed

lemma int_of_digits_zeros:
  "int_of_digits (ds @ replicate n (CHR ''0'')) = int_of_digits ds * 10 ^ n"
proof -
  have "int_of_digits (replicate n (CHR ''0'')) = 0"
    by (induction n) (simp_all add: int_of_digits_def digit_val_def)
  then show ?thesis by (simp add: int_of_digits_app)
qed

theorem grammar_overflow_counterexample:
  "is_digits (''1'' @ replicate 309 (CHR ''0'')) \<and> is_digits ''0'' \<and> is_quote (CHR 0x27) \<and>
   is_decimal ''0'' \<and>
   time_to_seconds (Str ((''1'' @ replicate 309 (CHR ''0'')) @ ''h'' @ ''0'' @ CHR 0x27 # ''0'')) =
     Inr (PyInt 0) \<and>
   int_of_digits (''1'' @ replicate 309 (CHR ''0'')) * 3600 + int_of_digits ''0'' * 60 =
     3600 * 10 ^ 309"
proof -
  have H: "is_digits (''1'' @ replicate 309 (CHR ''0''))"
    by (simp add: is_digits_def isdigit_def)
  have v: "int_of_digits (''1'' @ replicate 309 (CHR ''0'')) = 10 ^ 309"
    unfolding int_of_digits_zeros by (simp add: int_of_digits_def digit_val_def)
  have z: "int_of_digits ''0'' = 0" by (simp add: int_of_digits_def digit_val_def)
  have Z: "is_digits ''0''" "is_decimal ''0''" "is_quote (CHR 0x27)"
    by (simp_all add: is_digits_def is_decimal_def isdigit_def is_quote_def)
  have l: "int (length (''1'' @ replicate 309 (CHR ''0''))) \<le> int_max_str_digits"
    "int (length ''0'') \<le> int_max_str_digits"
    by (simp_all add: int_max_str_digits_def)
  have "(2::int) ^ 1024 \<le> 10 ^ 309 * 3600" by simp
  then have "int_to_float (int_of_digits (''1'' @ replicate 309 (CHR ''0'')) * 3600
               + int_of_digits ''0'' * 60) = Inl OverflowError"
    unfolding v z by (intro int_to_float_overflow) simp
  then have "time_to_seconds
      (Str ((''1'' @ replicate 309 (CHR ''0'')) @ ''h'' @ ''0'' @ CHR 0x27 # ''0'')) = Inr (PyInt 0)"
    using hour_shape_result[OF H Z(1) Z(3) Z(2) l] by simp
  then show ?thesis using H Z unfolding v z by simp
qed

subsection \<open>The distance of an event\<close>

lemma split_on_hd: "\<exists>ts. split_on p s = takeWhile (\<lambda>c. \<not> p c) s # ts"
proof (induction s)
  case Nil
  then show ?case by simp
next
  case (Cons c cs)
  then obtain ts where "split_on p cs = takeWhile (\<lambda>c. \<not> p c) cs # ts" by blast
  then show ?case by simp
qed

lemma py_split_first:
  "subscript0 (py_split s) =
     (if first_token s = [] then Inl IndexError else Inr (first_token s))"
proof (induction s)
  case Nil
  then show ?case by (simp add: py_split_def first_token_def)
next
  case (Cons c cs)
  show ?case
  proof (cases "isspace c")
    case True
    then have "py_split (c # cs) = py_split cs" "first_token (c # cs) = first_token cs"
      by (simp_all add: py_split_def first_token_def)
    with Cons show ?thesis by simp
  next
    case False
    obtain ts where "split_on isspace cs = takeWhile (\<lambda>c. \<not> isspace c) cs # ts"
      using split_on_hd by blast
    with False show ?thesis by (simp add: py_split_def first_token_def)
  qed
qed

lemma re_match_Some:
  assumes "re_match_digits_m tok = Some ds"
  shows "is_digits ds \<and> (\<exists>rest. tok = ds @ CHR ''m'' # rest)"
proof -
  have ds: "ds = takeWhile isdigit tok" "ds \<noteq> []"
    using assms by (auto simp: re_match_digits_m_def Let_def split: if_splits list.splits)
  obtain rest where "dropWhile isdigit tok = CHR ''m'' # rest"
    using assms by (auto simp: re_match_digits_m_def Let_def split: if_splits list.splits)
  then have "tok = ds @ CHR ''m'' # rest"
    using takeWhile_dropWhile_id[of isdigit tok] ds(1) by simp
  moreover have "is_digits ds"
    using ds by (auto simp: is_digits_def dest: set_takeWhileD)
  ultimately show ?thesis by blast
qed

lemma re_match_digits:
  assumes "is_digits ds"
  shows "re_match_digits_m (ds @ CHR ''m'' # rest) = Some ds"
proof -
  have a: "\<forall>c \<in> set ds. isdigit c" "ds \<noteq> []" using assms by (simp_all add: is_digits_def)
  have "takeWhile isdigit (ds @ CHR ''m'' # rest) = ds"
    "dropWhile isdigit (ds @ CHR ''m'' # rest) = CHR ''m'' # rest"
    using a(1) by (simp_all add: takeWhile_digits isdigit_def)
  then show ?thesis using a(2) by (simp add: re_match_digits_m_def)
qed

lemma table_key_has_token: "map_of road_events s = Some v \<Longrightarrow> first_token s \<noteq> []"
  by (auto simp: road_events_def first_token_def isspace_def split: if_splits)

lemma event_result:
  "event_to_meters (Str s) =
     Inr (case re_match_digits_m (first_token s) of
            Some ds \<Rightarrow> PyFloat (round_double (of_int (int_of_digits ds)))
          | None \<Rightarrow> (case map_of road_events s of Some v \<Rightarrow> v | None \<Rightarrow> PyInt 0))"
proof (cases "first_token s = []")
  case True
  then have "map_of road_events s = None" using table_key_has_token by fastforce
  moreover have "re_match_digits_m [] = None" by (simp add: re_match_digits_m_def)
  ultimately show ?thesis
    using True by (simp add: event_to_meters_def event_to_meters_try_def bind_def py_split_first)
next
  case False
  show ?thesis
  proof (cases "re_match_digits_m (first_token s)")
    case None
    with False show ?thesis
      by (simp add: event_to_meters_def event_to_meters_try_def bind_def py_split_first)
  next
    case (Some ds)
    then have "is_digits ds" using re_match_Some by blast
    then have "py_float ds = Inr (round_double (of_int (int_of_digits ds)))"
      by (rule py_float_digits)
    with False Some show ?thesis
      by (simp add: event_to_meters_def event_to_meters_try_def bind_def py_split_first)
  qed
qed

lemma first_token_prefix:
  assumes "\<forall>c \<in> set ws. isspace c" "\<forall>c \<in> set tok. \<not> isspace c" "tok \<noteq> []"
  shows "first_token (ws @ tok @ rest) = tok @ takeWhile (\<lambda>c. \<not> isspace c) rest"
proof -
  have "dropWhile isspace (ws @ tok @ rest) = dropWhile isspace (tok @ rest)"
    using assms(1) by (simp add: dropWhile_append2)
  also have "\<dots> = tok @ rest"
    using assms(2,3) by (intro dropWhile_hd) (simp_all add: hd_append)
  finally show ?thesis using assms(2) by (simp add: first_token_def takeWhile_append2)
qed

lemma event_digits_m:
  assumes "is_digits ds" "\<forall>c \<in> set ws. isspace c"
  shows "event_to_meters (Str (ws @ ds @ CHR ''m'' # rest)) =
         Inr (PyFloat (round_double (of_int (int_of_digits ds))))"
proof -
  have "\<forall>c \<in> set ds. \<not> isspace c"
    using is_digits_ends(4)[OF assms(1)] isdigit_not(9) by blast
  moreover have "\<not> isspace (CHR ''m'')" by (simp add: isspace_def)
  ultimately have "\<forall>c \<in> set (ds @ ''m''). \<not> isspace c" by simp
  from first_token_prefix[OF assms(2) this, of rest]
  have "first_token (ws @ ds @ CHR ''m'' # rest) =
        ds @ CHR ''m'' # takeWhile (\<lambda>c. \<not> isspace c) rest"
    by simp
  then show ?thesis by (simp add: event_result re_match_digits[OF assms(1)])
qed

text \<open>
  C6. \<open>event_to_meters\<close> follows the three steps for every input string: when the leading
  whitespace-delimited token starts with digits followed by \<^verbatim>\<open>m\<close>, the digits are returned
  as meters; otherwise the whole string is looked up in the fixed table of road events;
  otherwise the result is \<open>0\<close>. The three examples have the values of the specification
  (\<open>5001\<close> and \<open>0\<close> are returned as integers, equal in Python to \<open>5001.0\<close> and \<open>0.0\<close>).
\<close>

theorem event_policy:
  "(is_digits ds \<and> first_token s = ds @ CHR ''m'' # rest \<longrightarrow>
      event_to_meters (Str s) = Inr (PyFloat (round_double (of_int (int_of_digits ds))))) \<and>
   ((\<forall>ds rest. is_digits ds \<longrightarrow> first_token s \<noteq> ds @ CHR ''m'' # rest) \<longrightarrow>
      event_to_meters (Str s) =
      Inr (case map_of road_events s of Some v \<Rightarrow> v | None \<Rightarrow> PyInt 0)) \<and>
   road_events =
     [(''5km Road'', PyInt 5001), (''10km Road'', PyInt 10001), (''20km Road'', PyInt 20001),
      (''1/2 Marathon'', PyFloat (Finite (210975 / 10)))] \<and>
   event_to_meters (Str ''800m Indoor'') = Inr (PyFloat (Finite 800)) \<and>
   event_to_meters (Str ''5km Road'') = Inr (PyInt 5001) \<and>
   py_eq (PyInt 5001) (PyFloat (Finite 5001)) \<and>
   event_to_meters (Str ''10 Miles'') = Inr (PyInt 0) \<and>
   py_eq (PyInt 0) (PyFloat (Finite 0))"
proof (intro conjI impI)
  assume "is_digits ds \<and> first_token s = ds @ CHR ''m'' # rest"
  then show "event_to_meters (Str s) = Inr (PyFloat (round_double (of_int (int_of_digits ds))))"
    by (simp add: event_result re_match_digits)
next
  assume a: "\<forall>ds rest. is_digits ds \<longrightarrow> first_token s \<noteq> ds @ CHR ''m'' # rest"
  have "re_match_digits_m (first_token s) = None"
  proof (cases "re_match_digits_m (first_token s)")
    case (Some ds)
    with re_match_Some a show ?thesis by blast
  qed simp
  then show "event_to_meters (Str s) =
      Inr (case map_of road_events s of Some v \<Rightarrow> v | None \<Rightarrow> PyInt 0)"
    by (simp add: event_result)
qed (simp_all add: parser_defs round_double_numeral py_eq_def)

theorem event_policy_witness:
  "is_digits ''1500'' \<and> first_token ''1500m Track'' = ''1500'' @ CHR ''m'' # [] \<and>
   event_to_meters (Str ''1500m Track'') = Inr (PyFloat (Finite 1500)) \<and>
   first_token ''1/2 Marathon'' = ''1/2'' \<and>
   event_to_meters (Str ''1/2 Marathon'') = Inr (PyFloat (Finite (210975 / 10)))"
proof -
  have 1: "is_digits ''1500'' \<and> first_token ''1500m Track'' = ''1500'' @ CHR ''m'' # []"
    by (simp add: is_digits_def isdigit_def first_token_def isspace_def)
  have 2: "\<forall>ds rest. is_digits ds \<longrightarrow> first_token ''1/2 Marathon'' \<noteq> ds @ CHR ''m'' # rest"
  proof (intro allI impI notI)
    fix ds rest
    assume d: "is_digits ds" and "first_token ''1/2 Marathon'' = ds @ CHR ''m'' # rest"
    then have "ds @ CHR ''m'' # rest = ''1/2''" by (simp add: first_token_def isspace_def)
    then show False using d
      by (cases ds rule: rev_cases) (auto simp: is_digits_def isdigit_def append_eq_Cons_conv Cons_eq_append_conv)
  qed
  have 3: "int_of_digits ''1500'' = 1500" by (simp add: int_of_digits_def digit_val_def)
  have 4: "first_token ''1/2 Marathon'' = ''1/2''" by (simp add: first_token_def isspace_def)
  show ?thesis
    using 1 2 event_policy [of "''1500''" "''1500m Track''" "[]"]
      event_policy [of ds "''1/2 Marathon''" rest]
    by (simp add: 3 4 round_double_numeral road_events_def)
qed

text \<open>
  C10. When the first whitespace-delimited token begins with digits followed at once by
  \<^verbatim>\<open>m\<close>, \<open>event_to_meters\<close> returns the digits as meters whatever follows the \<^verbatim>\<open>m\<close>:
  the match is not anchored at the end of the token. The number is exact below \<open>2\<^sup>5\<^sup>3\<close>.
\<close>

theorem digits_m_prefix:
  "(is_digits ds \<and> (\<forall>c \<in> set ws. isspace c) \<longrightarrow>
      event_to_meters (Str (ws @ ds @ CHR ''m'' # rest)) =
      Inr (PyFloat (round_double (of_int (int_of_digits ds))))) \<and>
   (is_digits ds \<and> (\<forall>c \<in> set ws. isspace c) \<and> int_of_digits ds < 2 ^ 53 \<longrightarrow>
      event_to_meters (Str (ws @ ds @ CHR ''m'' # rest)) =
      Inr (PyFloat (Finite (of_int (int_of_digits ds))))) \<and>
   event_to_meters (Str ''100mH Hurdles'') = Inr (PyFloat (Finite 100)) \<and>
   event_to_meters (Str ''800metres'') = Inr (PyFloat (Finite 800))"
proof (intro conjI impI)
  assume "is_digits ds \<and> (\<forall>c \<in> set ws. isspace c)"
  then show "event_to_meters (Str (ws @ ds @ CHR ''m'' # rest)) =
      Inr (PyFloat (round_double (of_int (int_of_digits ds))))"
    using event_digits_m by blast
next
  assume a: "is_digits ds \<and> (\<forall>c \<in> set ws. isspace c) \<and> int_of_digits ds < 2 ^ 53"
  then have "0 \<le> int_of_digits ds"
    by (intro int_of_digits_nonneg) (simp add: is_digits_def)
  then have "round_double (of_int (int_of_digits ds)) = Finite (of_int (int_of_digits ds))"
    using a by (intro round_double_of_int_exact) simp_all
  then show "event_to_meters (Str (ws @ ds @ CHR ''m'' # rest)) =
      Inr (PyFloat (Finite (of_int (int_of_digits ds))))"
    using a event_digits_m by simp
qed (simp_all add: parser_defs round_double_numeral)

theorem digits_m_prefix_witness:
  "is_digits ''60'' \<and> isspace (CHR '' '') \<and> int_of_digits ''60'' < 2 ^ 53 \<and>
   event_to_meters (Str ('' '' @ ''60'' @ CHR ''m'' # ''H (indoor)'')) =
     Inr (PyFloat (Finite 60))"
proof -
  have 1: "is_digits ''60'' \<and> (\<forall>c \<in> set '' ''. isspace c) \<and> int_of_digits ''60'' < 2 ^ 53"
    by (simp add: is_digits_def isdigit_def isspace_def int_of_digits_def digit_val_def)
  have 2: "int_of_digits ''60'' = 60" by (simp add: int_of_digits_def digit_val_def)
  show ?thesis
    using 1 digits_m_prefix [of "''60''" "'' ''" "''H (indoor)''"]
    by (simp add: 2 round_double_numeral)
qed

section \<open>Sorting the table\<close>

subsection \<open>The derived columns\<close>

lemma time_to_seconds_Inr: "\<exists>v. time_to_seconds x = Inr v"
  by (simp add: time_to_seconds_def split: sum.split)

lemma event_to_meters_Inr: "\<exists>v. event_to_meters x = Inr v"
  by (simp add: event_to_meters_def split: sum.split)

lemma collect_Inr:
  "\<forall>x \<in> set xs. \<exists>v. f x = Inr v \<Longrightarrow> collect (map f xs) = Inr (map (\<lambda>x. projr (f x)) xs)"
  by (induction xs) (auto simp: bind_def)

lemma prepare_rows:
  "recs \<noteq> [] \<Longrightarrow> prepare td recs =
     Inr (map (\<lambda>i. \<lparr>src = recs ! i,
                     time_sec = projr (time_to_seconds (Str (Time (recs ! i)))),
                     event_m = projr (event_to_meters (Str (Event (recs ! i)))),
                     date = td (map Date recs) i\<rparr>) [0..<length recs])"
proof -
  have t: "collect (map (\<lambda>r. time_to_seconds (Str (Time r))) recs) =
           Inr (map (\<lambda>r. projr (time_to_seconds (Str (Time r)))) recs)"
    by (rule collect_Inr) (simp add: time_to_seconds_Inr)
  have m: "collect (map (\<lambda>r. event_to_meters (Str (Event r))) recs) =
           Inr (map (\<lambda>r. projr (event_to_meters (Str (Event r)))) recs)"
    by (rule collect_Inr) (simp add: event_to_meters_Inr)
  assume "recs \<noteq> []"
  then show ?thesis
    unfolding prepare_def t m bind_def by simp
qed

lemma prepare_empty: "prepare td [] = Inl KeyError"
  by (simp add: prepare_def)

lemma prepare_row_facts:
  assumes "prepare td recs = Inr df" "r \<in> set df"
  shows "\<exists>i < length recs. src r = recs ! i \<and> date r = td (map Date recs) i \<and>
           time_to_seconds (Str (Time (recs ! i))) = Inr (time_sec r) \<and>
           event_to_meters (Str (Event (recs ! i))) = Inr (event_m r)"
proof -
  from assms(1) have ne: "recs \<noteq> []"
    by (auto simp: prepare_def)
  from assms obtain i where i: "i < length recs"
    "r = \<lparr>src = recs ! i,
          time_sec = projr (time_to_seconds (Str (Time (recs ! i)))),
          event_m = projr (event_to_meters (Str (Event (recs ! i)))),
          date = td (map Date recs) i\<rparr>"
    unfolding prepare_rows[OF ne] by auto
  obtain t m where "time_to_seconds (Str (Time (recs ! i))) = Inr t"
    "event_to_meters (Str (Event (recs ! i))) = Inr m"
    using time_to_seconds_Inr event_to_meters_Inr by blast
  with i show ?thesis by auto
qed

subsection \<open>The error fallback\<close>

text \<open>
  C9, as the code has it. When the comparator-based sort raises an \<^verbatim>\<open>Exception\<close>, the error
  is shown as a message and the sort is tried once more on the raw text of the selected
  column; the outcome of the operation is the outcome of that second sort.
\<close>

theorem fallback_retries_raw_column:
  assumes "sort_values (comparator_column sort_col) sort_asc Last df = Inl e" "is_Exception e"
  shows "apply_sorting sort_values df sort_col sort_asc =
         (sort_values sort_col sort_asc Last df, [St_error e])"
  using assms by (simp add: apply_sorting_def comparator_column_def)

theorem fallback_retries_raw_column_witness:
  "failing_projection_sort (comparator_column ''Time'') True Last sample_rows =
     Inl (OtherException ''MemoryError'') \<and>
   is_Exception (OtherException ''MemoryError'') \<and>
   apply_sorting failing_projection_sort sample_rows ''Time'' True =
   (Inr [sample_rows ! 1, sample_rows ! 0, sample_rows ! 2],
    [St_error (OtherException ''MemoryError'')])"
proof -
  have 1: "failing_projection_sort (comparator_column ''Time'') True Last sample_rows =
           Inl (OtherException ''MemoryError'')"
    by (simp add: failing_projection_sort_def comparator_column_def sort_mapping_def)
  have 2: "failing_projection_sort ''Time'' True Last sample_rows =
           Inr [sample_rows ! 1, sample_rows ! 0, sample_rows ! 2]"
    by (simp add: failing_projection_sort_def sort_values_ref_def cell_of_def key_isna_def
        key_le_def sample_rows_def sample_records_def)
  have 3: "is_Exception (OtherException ''MemoryError'')" by simp
  show ?thesis
    using fallback_retries_raw_column
        [of failing_projection_sort "''Time''" True sample_rows "OtherException ''MemoryError''"]
        1 2 3
    by simp
qed

theorem fallback_can_fail_counterexample:
  "failing_sort (comparator_column ''Category'') True Last sample_rows =
     Inl (OtherException ''MemoryError'') \<and>
   apply_sorting failing_sort sample_rows ''Category'' True =
   (Inl (OtherException ''MemoryError''), [St_error (OtherException ''MemoryError'')])"
  by (simp add: apply_sorting_def sort_mapping_def failing_sort_def)

subsection \<open>The reference implementation meets the contract\<close>

lemma float_le_trans: "float_le a b \<Longrightarrow> float_le b c \<Longrightarrow> float_le a c"
  by (cases a; cases b; cases c) auto

lemma float_le_total: "a \<noteq> NaN \<Longrightarrow> b \<noteq> NaN \<Longrightarrow> float_le a b \<or> float_le b a"
  by (cases a; cases b) auto

lemma cell_le_trans: "cell_le x y \<Longrightarrow> cell_le y z \<Longrightarrow> cell_le x z"
proof (induction x y rule: cell_le.induct)
  case (1 a b)
  then show ?case by (cases z) auto
next
  case (2 a b)
  then show ?case by (cases z) (auto intro: float_le_trans)
next
  case (3 a b)
  then show ?case by (cases z rule: isna.cases) auto
qed auto

lemma num_val_NaN: "num_val v = NaN \<longleftrightarrow> v = PyFloat NaN"
  by (cases v) auto

lemma isna_CNum: "isna (CNum v) \<longleftrightarrow> v = PyFloat NaN"
  by (cases v rule: num_val.cases) (auto elim: isna.elims)

lemma isna_CDate: "isna (CDate d) \<longleftrightarrow> d = None"
  by (cases d) auto

lemma key_le_trans: "key_le by a b \<Longrightarrow> key_le by b c \<Longrightarrow> key_le by a c"
  by (auto simp: key_le_def split: option.splits intro: cell_le_trans)

lemma cell_of_simps:
  "cell_of ''Event'' r = Some (CStr (Event (src r)))"
  "cell_of ''Time'' r = Some (CStr (Time (src r)))"
  "cell_of ''Category'' r = Some (CStr (Category (src r)))"
  "cell_of ''Club'' r = Some (CStr (Club (src r)))"
  "cell_of ''Region'' r = Some (CStr (Region (src r)))"
  "cell_of ''Location'' r = Some (CStr (Location (src r)))"
  "cell_of ''Date'' r = Some (CStr (Date (src r)))"
  "cell_of ''_time_sec'' r = Some (CNum (time_sec r))"
  "cell_of ''_event_m'' r = Some (CNum (event_m r))"
  "cell_of ''_date'' r = Some (CDate (date r))"
  by (simp_all add: cell_of_def)

lemma cell_of_other:
  "by \<notin> set [''Event'', ''Time'', ''Category'', ''Club'', ''Region'', ''Location'', ''Date'',
               ''_time_sec'', ''_event_m'', ''_date''] \<Longrightarrow> cell_of by r = None"
  by (simp add: cell_of_def)

lemma key_le_str:
  assumes "\<And>r. cell_of by r = Some (CStr (f r))"
  shows "key_le by a b \<or> key_le by b a"
  using linear[of "f a" "f b"] by (simp add: key_le_def assms)

lemma key_le_num:
  assumes "\<And>r. cell_of by r = Some (CNum (f r))" "\<not> key_isna by a" "\<not> key_isna by b"
  shows "key_le by a b \<or> key_le by b a"
  using float_le_total[of "num_val (f a)" "num_val (f b)"] assms(2,3)
  by (simp add: key_le_def key_isna_def assms(1) isna_CNum num_val_NaN)

lemma key_le_date:
  assumes "\<And>r. cell_of by r = Some (CDate (f r))" "\<not> key_isna by a" "\<not> key_isna by b"
  shows "key_le by a b \<or> key_le by b a"
proof -
  obtain x y where "f a = Some x" "f b = Some y"
    using assms by (auto simp: key_isna_def isna_CDate)
  then show ?thesis using linear[of x y] by (simp add: key_le_def assms(1))
qed

lemma key_le_total:
  assumes "cell_of by a \<noteq> None" "\<not> key_isna by a" "\<not> key_isna by b"
  shows "key_le by a b \<or> key_le by b a"
proof -
  have "by \<in> set [''Event'', ''Time'', ''Category'', ''Club'', ''Region'', ''Location'', ''Date'',
                    ''_time_sec'', ''_event_m'', ''_date'']"
  proof (rule ccontr)
    assume "by \<notin> set [''Event'', ''Time'', ''Category'', ''Club'', ''Region'', ''Location'',
                        ''Date'', ''_time_sec'', ''_event_m'', ''_date'']"
    from cell_of_other[OF this, of a] assms(1) show False by simp
  qed
  then have "by = ''Event'' \<or> by = ''Time'' \<or> by = ''Category'' \<or> by = ''Club''
    \<or> by = ''Region'' \<or> by = ''Location'' \<or> by = ''Date''
    \<or> by = ''_time_sec'' \<or> by = ''_event_m'' \<or> by = ''_date''"
    by simp
  then show ?thesis
  proof (elim disjE)
    assume "by = ''Event''"
    then show ?thesis using key_le_str[of "by" "\<lambda>r. Event (src r)"] cell_of_simps by simp
  next
    assume "by = ''Time''"
    then show ?thesis using key_le_str[of "by" "\<lambda>r. Time (src r)"] cell_of_simps by simp
  next
    assume "by = ''Category''"
    then show ?thesis using key_le_str[of "by" "\<lambda>r. Category (src r)"] cell_of_simps by simp
  next
    assume "by = ''Club''"
    then show ?thesis using key_le_str[of "by" "\<lambda>r. Club (src r)"] cell_of_simps by simp
  next
    assume "by = ''Region''"
    then show ?thesis using key_le_str[of "by" "\<lambda>r. Region (src r)"] cell_of_simps by simp
  next
    assume "by = ''Location''"
    then show ?thesis using key_le_str[of "by" "\<lambda>r. Location (src r)"] cell_of_simps by simp
  next
    assume "by = ''Date''"
    then show ?thesis using key_le_str[of "by" "\<lambda>r. Date (src r)"] cell_of_simps by simp
  next
    assume "by = ''_time_sec''"
    then show ?thesis
      using key_le_num[of "by" time_sec a b] cell_of_simps assms(2,3) by simp
  next
    assume "by = ''_event_m''"
    then show ?thesis
      using key_le_num[of "by" event_m a b] cell_of_simps assms(2,3) by simp
  next
    assume "by = ''_date''"
    then show ?thesis
      using key_le_date[of "by" date a b] cell_of_simps assms(2,3) by simp
  qed
qed

lemma cell_of_None_all: "cell_of by r = None \<Longrightarrow> cell_of by r' = None"
  by (simp add: cell_of_def split: if_splits)

lemma set_insort_by: "set (insort_by le x xs) = insert x (set xs)"
  by (induction xs) auto

lemma mset_insort_by: "mset (insort_by le x xs) = add_mset x (mset xs)"
  by (induction xs) auto

lemma mset_foldr_insort_by: "mset (foldr (insort_by le) xs []) = mset xs"
  by (induction xs) (simp_all add: mset_insort_by)

lemma sorted_insort_by:
  assumes tr: "\<And>a b c. le a b \<Longrightarrow> le b c \<Longrightarrow> le a c"
  shows "\<forall>y \<in> set xs. le x y \<or> le y x \<Longrightarrow> sorted_wrt le xs \<Longrightarrow>
         sorted_wrt le (insort_by le x xs)"
proof (induction xs)
  case Nil
  then show ?case by simp
next
  case (Cons y ys)
  have ys: "\<forall>z \<in> set ys. le y z" "sorted_wrt le ys" using Cons.prems(2) by simp_all
  show ?case
  proof (cases "le x y")
    case True
    have "\<forall>z \<in> set ys. le x z" using ys(1) tr[OF True] by blast
    then show ?thesis using True ys by simp
  next
    case False
    then have yx: "le y x" using Cons.prems(1) by simp
    have "\<forall>z \<in> set ys. le x z \<or> le z x" using Cons.prems(1) by simp
    then have ih: "sorted_wrt le (insort_by le x ys)" using Cons.IH ys(2) by blast
    have "\<forall>z \<in> set (insort_by le x ys). le y z"
      unfolding set_insort_by using yx ys(1) by simp
    then show ?thesis using False ih by simp
  qed
qed

lemma sorted_foldr_insort_by:
  assumes tr: "\<And>a b c. le a b \<Longrightarrow> le b c \<Longrightarrow> le a c"
  shows "\<forall>x \<in> set xs. \<forall>y \<in> set xs. le x y \<or> le y x \<Longrightarrow>
         sorted_wrt le (foldr (insort_by le) xs [])"
proof (induction xs)
  case Nil
  then show ?case by simp
next
  case (Cons x xs)
  have s: "set (foldr (insort_by le) xs []) = set xs"
    using mset_foldr_insort_by[of le xs] by (metis set_mset_mset)
  have "\<forall>a \<in> set xs. \<forall>b \<in> set xs. le a b \<or> le b a" using Cons.prems by simp
  then have ih: "sorted_wrt le (foldr (insort_by le) xs [])" using Cons.IH by blast
  have "\<forall>y \<in> set (foldr (insort_by le) xs []). le x y \<or> le y x"
    unfolding s using Cons.prems by simp
  from sorted_insort_by[of le, OF tr this ih] show ?case by simp
qed

lemma sort_values_ref_contract: "sort_values_contract sort_values_ref"
  unfolding sort_values_contract_def
proof (intro allI impI)
  fix "by" asc na df out
  assume a: "sort_values_ref by asc na df = Inr out"
  define le where "le = (\<lambda>a b. if asc then key_le by a b else key_le by b a)"
  define present where "present = filter (\<lambda>r. \<not> key_isna by r) df"
  define missing where "missing = filter (key_isna by) df"
  define ordered where "ordered = foldr (insort_by le) present []"
  define r0 :: row where
    "r0 = \<lparr>src = \<lparr>Event = [], Time = [], Category = [], Club = [], Region = [],
                      Location = [], Date = []\<rparr>,
          time_sec = PyInt 0, event_m = PyInt 0, date = None\<rparr>"
  have c0: "(cell_of by r0 = None) = False"
  proof -
    have "cell_of by r0 = None \<Longrightarrow> sort_values_ref by asc na df = Inl KeyError"
      unfolding sort_values_ref_def r0_def by simp
    with a show ?thesis by auto
  qed
  have col: "cell_of by r \<noteq> None" for r
  proof
    assume "cell_of by r = None"
    from cell_of_None_all[OF this, of r0] c0 show False by simp
  qed
  have "sort_values_ref by asc na df =
        Inr (case na of Last \<Rightarrow> ordered @ missing | First \<Rightarrow> missing @ ordered)"
    unfolding sort_values_ref_def Let_def ordered_def present_def missing_def le_def
      r0_def[symmetric]
    by (simp only: c0 if_False)
  with a have "Inr out =
        (Inr (case na of Last \<Rightarrow> ordered @ missing | First \<Rightarrow> missing @ ordered)
          :: py_exc + row list)"
    by (simp only:)
  then have out: "out = (case na of Last \<Rightarrow> ordered @ missing | First \<Rightarrow> missing @ ordered)"
    by (simp only: sum.inject)
  have m: "mset ordered = mset present" by (simp add: ordered_def mset_foldr_insort_by)
  then have s: "set ordered = set present" by (metis set_mset_mset)
  have tr: "le a b \<Longrightarrow> le b c \<Longrightarrow> le a c" for a b c
  proof (cases asc)
    case True
    assume "le a b" "le b c"
    then have "key_le by a b" "key_le by b c" using True by (simp_all add: le_def)
    then have "key_le by a c" by (rule key_le_trans)
    then show ?thesis using True by (simp add: le_def)
  next
    case False
    assume "le a b" "le b c"
    then have "key_le by c b" "key_le by b a" using False by (simp_all add: le_def)
    then have "key_le by c a" by (rule key_le_trans)
    then show ?thesis using False by (simp add: le_def)
  qed
  have tot: "\<forall>x \<in> set present. \<forall>y \<in> set present. le x y \<or> le y x"
  proof (intro ballI)
    fix x y
    assume "x \<in> set present" "y \<in> set present"
    then have "\<not> key_isna by x" "\<not> key_isna by y" by (simp_all add: present_def)
    from key_le_total[OF col this] show "le x y \<or> le y x"
      by (cases asc) (auto simp: le_def)
  qed
  have so: "sorted_wrt le ordered"
    unfolding ordered_def using sorted_foldr_insort_by[of le, OF tr tot] .
  have fo: "filter (\<lambda>r. \<not> key_isna by r) ordered = ordered"
    "filter (key_isna by) ordered = []"
    unfolding filter_id_conv filter_empty_conv s by (simp_all add: present_def)
  have fm: "filter (\<lambda>r. \<not> key_isna by r) missing = []"
    "filter (key_isna by) missing = missing"
    unfolding filter_id_conv filter_empty_conv by (simp_all add: missing_def)
  have "mset df = mset present + mset missing"
    unfolding present_def missing_def by (simp add: union_commute)
  then have ms: "mset out = mset df"
    unfolding out using m by (cases na) simp_all
  show "sort_values_post by asc na df out"
  proof (cases na)
    case First
    then have "out = missing @ ordered" by (simp add: out)
    then show ?thesis
      unfolding sort_values_post_def Let_def le_def[symmetric]
      using ms so First by (simp add: fo fm)
  next
    case Last
    then have "out = ordered @ missing" by (simp add: out)
    then show ?thesis
      unfolding sort_values_post_def Let_def le_def[symmetric]
      using ms so Last by (simp add: fo fm)
  qed
qed

subsection \<open>Rows with a missing key\<close>

lemma partition_order:
  assumes "out = filter (\<lambda>r. \<not> P r) out @ filter P out" "i < j" "j < length out" "P (out ! i)"
  shows "P (out ! j)"
proof -
  define n where "n = length (filter (\<lambda>r. \<not> P r) out)"
  have split: "\<And>k. k < length out \<Longrightarrow>
      out ! k = (if k < n then filter (\<lambda>r. \<not> P r) out ! k else filter P out ! (k - n))"
    unfolding n_def using assms(1) by (metis nth_append)
  have "\<not> i < n"
  proof
    assume "i < n"
    then have "filter (\<lambda>r. \<not> P r) out ! i \<in> set (filter (\<lambda>r. \<not> P r) out)"
      unfolding n_def by (rule nth_mem)
    moreover have "out ! i = filter (\<lambda>r. \<not> P r) out ! i"
      using split[of i] assms(2,3) \<open>i < n\<close> by simp
    ultimately have "out ! i \<in> set (filter (\<lambda>r. \<not> P r) out)" by simp
    with assms(4) show False by simp
  qed
  then have "\<not> j < n" using assms(2) by simp
  moreover have "length out = n + length (filter P out)"
    unfolding n_def using assms(1) by (metis length_append)
  ultimately have "out ! j = filter P out ! (j - n)" "j - n < length (filter P out)"
    using split[of j] assms(3) by simp_all
  then have "out ! j \<in> set (filter P out)" by (metis nth_mem)
  then show ?thesis by simp
qed

lemma apply_sorting_no_message:
  assumes "apply_sorting sort_values df col asc = (Inr out, [])"
  shows "sort_values (comparator_column col) asc Last df = Inr out"
  using assms
  by (auto simp: apply_sorting_def comparator_column_def Let_def split: sum.splits if_splits)

lemma key_isna_date: "key_isna ''_date'' r \<longleftrightarrow> date r = None"
  by (simp add: key_isna_def cell_of_simps isna_CDate)

text \<open>
  C7. When the table is sorted on the Date column and the error fallback does not fire,
  every record whose Date the date parse rejects stands after all records whose Date it
  accepts, ascending or descending. (\<open>sort_values\<close> is any function that meets the
  contract of the library call; the rows are those of the frame and carry the parse of
  their own Date.)
\<close>

theorem unparsable_dates_last:
  assumes "sort_values_contract sort_values"
    and "prepare to_datetime recs = Inr df"
    and "apply_sorting sort_values df ''Date'' asc = (Inr out, [])"
  shows "missing_last out \<and> mset out = mset df \<and>
         (\<forall>r \<in> set out. \<exists>i < length recs.
            src r = recs ! i \<and> date r = to_datetime (map Date recs) i)"
proof -
  have "sort_values ''_date'' asc Last df = Inr out"
    using apply_sorting_no_message[OF assms(3)]
    by (simp add: comparator_column_def sort_mapping_def)
  then have post: "sort_values_post ''_date'' asc Last df out"
    using assms(1) by (simp add: sort_values_contract_def)
  then have p: "out = filter (\<lambda>r. \<not> key_isna ''_date'' r) out @ filter (key_isna ''_date'') out"
    and m: "mset out = mset df"
    by (simp_all add: sort_values_post_def Let_def)
  have "missing_last out"
    unfolding missing_last_def
    using partition_order[OF p, unfolded key_isna_date] by blast
  moreover have "set out = set df" using m by (metis set_mset_mset)
  ultimately show ?thesis
    using m prepare_row_facts[OF assms(2)] by blast
qed

theorem unparsable_dates_last_witness:
  "sort_values_contract sort_values_ref \<and>
   prepare sample_to_datetime sample_records = Inr sample_rows \<and>
   apply_sorting sort_values_ref sample_rows ''Date'' False =
     (Inr [sample_rows ! 0, sample_rows ! 2, sample_rows ! 1], []) \<and>
   missing_last [sample_rows ! 0, sample_rows ! 2, sample_rows ! 1] \<and>
   map date [sample_rows ! 0, sample_rows ! 2, sample_rows ! 1] =
     [Some 20210315, Some 20200101, None]"
proof -
  have 1: "prepare sample_to_datetime sample_records = Inr sample_rows"
    by (simp add: prepare_def sample_records_def sample_rows_def sample_to_datetime_def
        parser_defs round_double_numeral upt_rec)
  have 2: "apply_sorting sort_values_ref sample_rows ''Date'' False =
     (Inr [sample_rows ! 0, sample_rows ! 2, sample_rows ! 1], [])"
    by (simp add: apply_sorting_def sort_mapping_def sort_values_ref_def cell_of_def
        key_isna_def key_le_def sample_rows_def sample_records_def)
  have 3: "map date [sample_rows ! 0, sample_rows ! 2, sample_rows ! 1] =
     [Some 20210315, Some 20200101, None]"
    by (simp add: sample_rows_def)
  show ?thesis
    using unparsable_dates_last [OF sort_values_ref_contract 1 2] sort_values_ref_contract 1 2 3
    by simp
qed

subsection \<open>Ascending and descending\<close>

lemma sorted_wrt_unique:
  assumes "\<forall>x \<in> set xs. \<forall>y \<in> set xs. R x y \<longrightarrow> R y x \<longrightarrow> x = y"
  shows "sorted_wrt R xs \<Longrightarrow> sorted_wrt R ys \<Longrightarrow> mset xs = mset ys \<Longrightarrow> xs = ys"
  using assms
proof (induction xs arbitrary: ys)
  case Nil
  then show ?case by simp
next
  case (Cons x xs)
  then obtain y ys' where ys: "ys = y # ys'" by (cases ys) auto
  have sets: "set (x # xs) = set (y # ys')"
    using Cons.prems(3) ys by (metis set_mset_mset)
  have xy: "x = y"
  proof (rule ccontr)
    assume ne: "x \<noteq> y"
    then have "x \<in> set ys'" "y \<in> set xs" using sets by auto
    then have "R y x" "R x y" using Cons.prems(1,2) ys by auto
    moreover have "x \<in> set (x # xs)" "y \<in> set (x # xs)" using \<open>y \<in> set xs\<close> by simp_all
    ultimately have "x = y" using Cons.prems(4) by blast
    with ne show False by simp
  qed
  have "xs = ys'"
  proof (rule Cons.IH)
    show "sorted_wrt R xs" using Cons.prems(1) by simp
    show "sorted_wrt R ys'" using Cons.prems(2) ys by simp
    show "mset xs = mset ys'" using Cons.prems(3) ys xy by simp
    show "\<forall>x \<in> set xs. \<forall>y \<in> set xs. R x y \<longrightarrow> R y x \<longrightarrow> x = y"
      using Cons.prems(4) by simp
  qed
  with xy ys show ?case by simp
qed

lemma no_ties_antisym:
  assumes "no_ties col df" "x \<in> set df" "y \<in> set df"
    "key_le (comparator_column col) x y" "key_le (comparator_column col) y x"
  shows "x = y"
proof -
  obtain i j where ij: "i < length df" "j < length df" "x = df ! i" "y = df ! j"
    using assms(2,3) by (metis in_set_conv_nth)
  have p: "\<And>a b. a < b \<Longrightarrow> b < length df \<Longrightarrow> \<not> comparator_eq col (df ! a) (df ! b)"
    using assms(1) unfolding no_ties_def sorted_wrt_iff_nth_less by simp
  have e: "comparator_eq col x y" "comparator_eq col y x"
    using assms(4,5) by (simp_all add: comparator_eq_def)
  show ?thesis
  proof (rule ccontr)
    assume "x \<noteq> y"
    then have "i \<noteq> j" using ij by auto
    then consider "i < j" | "j < i" by linarith
    then show False
    proof cases
      case 1
      then show ?thesis using p[of i j] ij e by simp
    next
      case 2
      then show ?thesis using p[of j i] ij e by simp
    qed
  qed
qed

lemma click_same: "click (column st) st = st\<lparr>ascending := \<not> ascending st\<rparr>"
  by (simp add: click_def)

lemma post_all_present:
  assumes "sort_values_post by asc na df out" "\<forall>r \<in> set df. \<not> key_isna by r"
  shows "mset out = mset df"
    "sorted_wrt (\<lambda>a b. if asc then key_le by a b else key_le by b a) out"
proof -
  show m: "mset out = mset df" using assms(1) by (simp add: sort_values_post_def Let_def)
  then have "set out = set df" by (metis set_mset_mset)
  then have "filter (\<lambda>r. \<not> key_isna by r) out = out"
    unfolding filter_id_conv using assms(2) by simp
  then show "sorted_wrt (\<lambda>a b. if asc then key_le by a b else key_le by b a) out"
    using assms(1) by (simp add: sort_values_post_def Let_def)
qed

text \<open>
  C8, as the code has it. For every frame and every column: if no two records have equal
  comparator values on the column and no record's comparator value is missing, then the
  descending sort, reached by pressing the button of the column again, yields exactly the
  reverse of the ascending sort.
\<close>

theorem descending_is_reverse:
  assumes "sort_values_contract sort_values"
    and "ascending st"
    and "apply_sorting sort_values df (column st) (ascending st) = (Inr a, [])"
    and "apply_sorting sort_values df (column (click (column st) st))
           (ascending (click (column st) st)) = (Inr d, [])"
    and "no_ties (column st) df"
    and "none_missing (column st) df"
  shows "d = rev a"
proof -
  define cc where "cc = comparator_column (column st)"
  have nm: "\<forall>r \<in> set df. \<not> key_isna cc r" using assms(6) by (simp add: none_missing_def cc_def)
  have "sort_values cc True Last df = Inr a"
    using apply_sorting_no_message[OF assms(3)] assms(2) by (simp add: cc_def)
  then have pa: "sort_values_post cc True Last df a"
    using assms(1) by (simp add: sort_values_contract_def)
  have "sort_values cc False Last df = Inr d"
    using apply_sorting_no_message[OF assms(4)] assms(2) by (simp add: cc_def click_same)
  then have pd: "sort_values_post cc False Last df d"
    using assms(1) by (simp add: sort_values_contract_def)
  note a = post_all_present[OF pa nm] and d = post_all_present[OF pd nm]
  have sa: "sorted_wrt (key_le cc) a" using a(2) by simp
  have "sorted_wrt (\<lambda>x y. key_le cc y x) d" using d(2) by simp
  then have sd: "sorted_wrt (key_le cc) (rev d)" by (simp add: sorted_wrt_rev)
  have ms: "mset a = mset (rev d)" using a(1) d(1) by simp
  have "set a = set df" using a(1) by (metis set_mset_mset)
  then have anti: "\<forall>x \<in> set a. \<forall>y \<in> set a. key_le cc x y \<longrightarrow> key_le cc y x \<longrightarrow> x = y"
    using no_ties_antisym[OF assms(5)] unfolding cc_def by blast
  have "a = rev d" using sorted_wrt_unique[OF anti sa sd ms] .
  then show ?thesis by simp
qed

theorem descending_is_reverse_witness:
  "sort_values_contract sort_values_ref \<and> ascending initial_sort \<and>
   apply_sorting sort_values_ref sample_rows (column initial_sort) (ascending initial_sort) =
     (Inr [sample_rows ! 2, sample_rows ! 0, sample_rows ! 1], []) \<and>
   apply_sorting sort_values_ref sample_rows
     (column (click (column initial_sort) initial_sort))
     (ascending (click (column initial_sort) initial_sort)) =
     (Inr [sample_rows ! 1, sample_rows ! 0, sample_rows ! 2], []) \<and>
   no_ties (column initial_sort) sample_rows \<and>
   none_missing (column initial_sort) sample_rows \<and>
   [sample_rows ! 1, sample_rows ! 0, sample_rows ! 2] =
     rev [sample_rows ! 2, sample_rows ! 0, sample_rows ! 1]"
proof -
  have 1: "ascending initial_sort" by (simp add: initial_sort_def)
  have 2: "apply_sorting sort_values_ref sample_rows (column initial_sort)
      (ascending initial_sort) = (Inr [sample_rows ! 2, sample_rows ! 0, sample_rows ! 1], [])"
    by (simp add: initial_sort_def apply_sorting_def sort_mapping_def sort_values_ref_def
        cell_of_def key_isna_def key_le_def sample_rows_def sample_records_def)
  have 3: "apply_sorting sort_values_ref sample_rows
     (column (click (column initial_sort) initial_sort))
     (ascending (click (column initial_sort) initial_sort)) =
     (Inr [sample_rows ! 1, sample_rows ! 0, sample_rows ! 2], [])"
    by (simp add: initial_sort_def click_def apply_sorting_def sort_mapping_def
        sort_values_ref_def cell_of_def key_isna_def key_le_def sample_rows_def
        sample_records_def)
  have 4: "no_ties (column initial_sort) sample_rows"
    by (simp add: no_ties_def comparator_eq_def comparator_column_def sort_mapping_def
        initial_sort_def key_le_def cell_of_def sample_rows_def sample_records_def)
  have 5: "none_missing (column initial_sort) sample_rows"
    by (simp add: none_missing_def comparator_column_def sort_mapping_def
        initial_sort_def key_isna_def cell_of_def sample_rows_def sample_records_def)
  show ?thesis
    using descending_is_reverse [OF sort_values_ref_contract 1 2 3 4 5]
      sort_values_ref_contract 1 2 3 4 5
    by simp
qed

theorem missing_date_counterexample:
  "no_ties ''Date'' sample_rows \<and>
   apply_sorting sort_values_ref sample_rows ''Date'' True =
     (Inr [sample_rows ! 2, sample_rows ! 0, sample_rows ! 1], []) \<and>
   click ''Date'' \<lparr>column = ''Date'', ascending = True\<rparr> =
     \<lparr>column = ''Date'', ascending = False\<rparr> \<and>
   apply_sorting sort_values_ref sample_rows ''Date'' False =
     (Inr [sample_rows ! 0, sample_rows ! 2, sample_rows ! 1], []) \<and>
   [sample_rows ! 0, sample_rows ! 2, sample_rows ! 1] \<noteq>
     rev [sample_rows ! 2, sample_rows ! 0, sample_rows ! 1]"
  by (simp add: no_ties_def comparator_eq_def comparator_column_def sort_mapping_def
      click_def apply_sorting_def sort_values_ref_def cell_of_def key_isna_def key_le_def
      sample_rows_def sample_records_def)

section \<open>Missing numeric keys\<close>

lemma to_lower_n: "to_lower c = CHR ''n'' \<Longrightarrow> c = CHR ''n'' \<or> c = CHR ''N''"
proof (cases "65 \<le> (of_char c :: int) \<and> (of_char c :: int) \<le> 90")
  case False
  assume a: "to_lower c = CHR ''n''"
  have "to_lower c = c" unfolding to_lower_def using False by (rule if_not_P)
  with a show ?thesis by simp
next
  case True
  assume a: "to_lower c = CHR ''n''"
  have "to_lower c = char_of (of_char c + (32 :: int))"
    unfolding to_lower_def using True by (rule if_P)
  with a have "char_of (of_char c + (32 :: int)) = CHR ''n''" by simp
  then have "(of_char (char_of (of_char c + (32 :: int)) :: char) :: int) = of_char (CHR ''n'')"
    by simp
  then have "(of_char c + 32 :: int) mod 256 = 110" by (simp add: of_char_of)
  then have "(of_char c :: int) = 78" using True by simp
  then have "(of_char c :: int) = of_char (CHR ''N'')" by simp
  then have "c = CHR ''N''" by (simp only: of_char_eq_iff)
  then show ?thesis by simp
qed

lemma parse_inf_or_nan_has_n:
  assumes "parse_inf_or_nan body = Some v"
  shows "CHR ''n'' \<in> set body \<or> CHR ''N'' \<in> set body"
proof -
  have "map to_lower body = ''inf'' \<or> map to_lower body = ''infinity'' \<or>
        map to_lower body = ''nan''"
    using assms by (auto simp: parse_inf_or_nan_def Let_def split: if_splits)
  then have "CHR ''n'' \<in> set (map to_lower body)" by (elim disjE) simp_all
  then obtain c where "c \<in> set body" "to_lower c = CHR ''n''" by auto
  then show ?thesis using to_lower_n by auto
qed

lemma split_sign_facts:
  assumes "split_sign u = (neg, body)"
  shows "set body \<subseteq> set u" "neg \<Longrightarrow> CHR ''-'' \<in> set u"
  using assms by (cases u; auto simp: split_sign_def split: if_splits)+

lemma parse_decimal_nonneg:
  assumes "parse_decimal body = Some (m, k)"
  shows "0 \<le> m"
  using assms
  by (auto simp: parse_decimal_def Let_def split: list.splits if_splits option.splits
      intro!: int_of_digits_nonneg dest: set_takeWhileD)

lemma py_float_nonneg:
  assumes "py_float t = Inr v" "safe_text t"
  shows "nonneg_float v"
proof -
  define u where "u = strip_by num_space (filter (\<lambda>c. c \<noteq> CHR ''_'') t)"
  have ut: "set u \<subseteq> set t" unfolding u_def using strip_by_subset by fastforce
  obtain neg body where sb: "split_sign u = (neg, body)" by (cases "split_sign u")
  note f = split_sign_facts[OF sb]
  have neg: "\<not> neg" using f(2) ut assms(2) by (auto simp: safe_text_def)
  have bt: "set body \<subseteq> set t" using f(1) ut by simp
  have "underscores_ok (CHR 0x00) t"
  proof (rule ccontr)
    assume "\<not> underscores_ok (CHR 0x00) t"
    then have "py_float t = Inl ValueError" by (simp add: py_float_def)
    with assms(1) show False by simp
  qed
  then have pf: "py_float t =
     (case parse_decimal body of
        Some (m, k) \<Rightarrow> Inr (round_double ((if neg then - 1 else 1) * of_int m * 10 powi k))
      | None \<Rightarrow> (case parse_inf_or_nan body of
                   Some v \<Rightarrow> Inr (if neg \<and> v = PInf then NInf else v)
                 | None \<Rightarrow> Inl ValueError))"
    by (simp add: py_float_def u_def[symmetric] sb)
  show ?thesis
  proof (cases "parse_decimal body")
    case None
    have "\<exists>w. parse_inf_or_nan body = Some w"
    proof (cases "parse_inf_or_nan body")
      case None
      with \<open>parse_decimal body = None\<close> pf assms(1) show ?thesis by simp
    qed simp
    then obtain w where "parse_inf_or_nan body = Some w" ..
    then have "CHR ''n'' \<in> set body \<or> CHR ''N'' \<in> set body" by (rule parse_inf_or_nan_has_n)
    with bt assms(2) show ?thesis by (auto simp: safe_text_def)
  next
    case (Some mk)
    obtain m k where mk: "mk = (m, k)" by (cases mk)
    have "0 \<le> m" using Some mk parse_decimal_nonneg by simp
    then have "(0::rat) \<le> of_int m * 10 powi k" by (simp add: zero_le_power_int)
    then have "nonneg_float (round_double (of_int m * 10 powi k))" by (rule round_double_nonneg)
    moreover have "v = round_double (of_int m * 10 powi k)"
      using pf assms(1) Some mk neg by simp
    ultimately show ?thesis by simp
  qed
qed

lemma nonneg_not_NaN: "nonneg_float v \<Longrightarrow> v \<noteq> NaN"
  by (auto simp: nonneg_float_def)

lemma nonneg_fadd: "nonneg_float a \<Longrightarrow> nonneg_float b \<Longrightarrow> nonneg_float (fadd a b)"
  by (cases a; cases b) (simp_all add: nonneg_float_def[of "Finite _"] nonneg_float_def[of PInf]
      nonneg_float_def[of NInf] nonneg_float_def[of NaN] round_double_nonneg)

lemma nonneg_fmul_60: "nonneg_float a \<Longrightarrow> nonneg_float (fmul a (Finite 60))"
  by (cases a) (simp_all add: nonneg_float_def[of "Finite _"] nonneg_float_def[of PInf]
      nonneg_float_def[of NInf] nonneg_float_def[of NaN] round_double_nonneg)

lemma nonneg_fdiv_100:
  "nonneg_float a \<Longrightarrow> fdiv a (Finite 100) = Inr w \<Longrightarrow> nonneg_float w"
  by (cases a) (auto simp: nonneg_float_def[of "Finite _"] nonneg_float_def[of PInf]
      nonneg_float_def[of NInf] nonneg_float_def[of NaN] round_double_nonneg)

lemma fadd_Finite_not_NaN: "s \<noteq> NaN \<Longrightarrow> fadd (Finite r) s \<noteq> NaN"
  by (cases s) (simp_all add: round_double_not_NaN)

lemma bind_Inr: "bind r f = Inr y \<Longrightarrow> \<exists>v. r = Inr v \<and> f v = Inr y"
  by (cases r) (simp_all add: bind_def)

lemma int_to_float_Finite: "int_to_float n = Inr v \<Longrightarrow> \<exists>r. v = Finite r"
  unfolding int_to_float_def by (cases "round_double (of_int n)") auto

lemma safe_subset: "safe_text s \<Longrightarrow> set t \<subseteq> set s \<union> {CHR 0x27, CHR ''.''} \<Longrightarrow> safe_text t"
  by (auto simp: safe_text_def)

lemma set_clean: "set (clean s) \<subseteq> set s \<union> {CHR 0x27}"
proof -
  have "set (strip s) \<subseteq> set s" unfolding strip_def by (rule strip_by_subset)
  then show ?thesis by (auto simp: clean_map split: if_splits)
qed

lemma set_tl_dropWhile: "set (tl (dropWhile p xs)) \<subseteq> set xs"
proof
  fix x
  assume "x \<in> set (tl (dropWhile p xs))"
  then have "x \<in> set (dropWhile p xs)" by (cases "dropWhile p xs") auto
  then show "x \<in> set xs" by (rule set_dropWhileD)
qed

lemma set_replace_chr: "set (replace_chr a b s) \<subseteq> set s \<union> set b"
  by (induction s) (auto simp: replace_chr_def)

lemma hour_form_not_NaN:
  assumes "safe_text s" "CHR ''h'' \<in> set (clean s)"
  shows "hour_form (clean s) \<noteq> Inr (PyFloat NaN)"
proof
  assume a: "hour_form (clean s) = Inr (PyFloat NaN)"
  define rest where "rest = tl (dropWhile (\<lambda>x. x \<noteq> CHR ''h'') (clean s))"
  define s_part where "s_part = tl (dropWhile (\<lambda>x. x \<noteq> CHR 0x27) rest)"
  have "set s_part \<subseteq> set (clean s)"
    unfolding s_part_def rest_def by (rule order_trans[OF set_tl_dropWhile set_tl_dropWhile])
  then have "set (filter (\<lambda>x. x \<noteq> CHR 0x27) s_part) \<subseteq> set s \<union> {CHR 0x27, CHR ''.''}"
    using set_clean[of s] by auto
  then have sf: "safe_text (filter (\<lambda>x. x \<noteq> CHR 0x27) s_part)"
    using assms(1) safe_subset by blast
  from a have "\<exists>H M S hm. py_float (filter (\<lambda>x. x \<noteq> CHR 0x27) s_part) = Inr S \<and>
      int_to_float (H * 3600 + M * 60) = Inr hm \<and> fadd hm S = NaN"
    unfolding hour_form_unfold[OF assms(2)] Let_def rest_def[symmetric] s_part_def[symmetric]
    by (auto simp: bind_def split: if_splits sum.splits)
  then obtain H M S hm where S: "py_float (filter (\<lambda>x. x \<noteq> CHR 0x27) s_part) = Inr S"
    and hm: "int_to_float (H * 3600 + M * 60) = Inr hm" and n: "fadd hm S = NaN"
    by blast
  obtain r where "hm = Finite r" using int_to_float_Finite[OF hm] by blast
  moreover have "S \<noteq> NaN" using py_float_nonneg[OF S sf] by (rule nonneg_not_NaN)
  ultimately show False using n fadd_Finite_not_NaN by blast
qed

lemma tokens_safe:
  assumes "safe_text s" "t \<in> set (tokens s)"
  shows "safe_text t"
proof -
  have "t \<in> set (split_on is_quote (strip s))" using assms(2) by (simp add: tokens_def)
  then have "set t \<subseteq> set (strip s)" by (rule split_on_subset)
  moreover have "set (strip s) \<subseteq> set s" unfolding strip_def by (rule strip_by_subset)
  ultimately show ?thesis using assms(1) by (auto simp: safe_text_def)
qed

lemma time_try_not_NaN:
  assumes "safe_text s"
  shows "time_to_seconds_try (Str s) \<noteq> Inr (PyFloat NaN)"
proof (cases "CHR ''h'' \<in> set (clean s)")
  case True
  then have "time_to_seconds_try (Str s) = hour_form (clean s)"
    by (simp add: time_to_seconds_try_def bind_def)
  then show ?thesis using hour_form_not_NaN[OF assms True] by simp
next
  case False
  show ?thesis
  proof
    assume "time_to_seconds_try (Str s) = Inr (PyFloat NaN)"
    then consider
      (two) p0 p1 m sec where "tokens s = [p0, p1]" "py_float p0 = Inr m"
        "py_float p1 = Inr sec" "fadd (fmul m (Finite 60)) sec = NaN"
      | (three) p0 p1 p2 m sec c hs where "tokens s = [p0, p1, p2]" "py_float p0 = Inr m"
        "py_float p1 = Inr sec" "py_float p2 = Inr c" "fdiv c (Finite 100) = Inr hs"
        "fadd (fadd (fmul m (Finite 60)) sec) hs = NaN"
      | (plain) "py_float (replace_chr (CHR 0x27) ''.'' (clean s)) = Inr NaN"
      unfolding time_without_h[OF False]
      by (auto simp: bind_def split: list.splits sum.splits)
    then show False
    proof cases
      case two
      have "safe_text p0" "safe_text p1" using tokens_safe[OF assms] two(1) by simp_all
      then have "nonneg_float m" "nonneg_float sec"
        using two(2,3) py_float_nonneg by blast+
      then have "nonneg_float (fadd (fmul m (Finite 60)) sec)"
        by (intro nonneg_fadd nonneg_fmul_60)
      with two(4) show False using nonneg_not_NaN by auto
    next
      case three
      have "safe_text p0" "safe_text p1" "safe_text p2"
        using tokens_safe[OF assms] three(1) by simp_all
      then have "nonneg_float m" "nonneg_float sec" "nonneg_float c"
        using three(2,3,4) py_float_nonneg by blast+
      moreover from this(3) three(5) have "nonneg_float hs" by (rule nonneg_fdiv_100)
      ultimately have "nonneg_float (fadd (fadd (fmul m (Finite 60)) sec) hs)"
        by (intro nonneg_fadd nonneg_fmul_60)
      with three(6) show False using nonneg_not_NaN by auto
    next
      case plain
      have "set (replace_chr (CHR 0x27) ''.'' (clean s)) \<subseteq> set s \<union> {CHR 0x27, CHR ''.''}"
        using set_replace_chr[of "CHR 0x27" "''.''" "clean s"] set_clean[of s] by auto
      then have "safe_text (replace_chr (CHR 0x27) ''.'' (clean s))"
        using assms safe_subset by blast
      from py_float_nonneg[OF plain this] show False by (simp add: nonneg_float_def)
    qed
  qed
qed

lemma time_not_NaN: "safe_text s \<Longrightarrow> time_to_seconds (Str s) \<noteq> Inr (PyFloat NaN)"
  using time_try_not_NaN[of s] by (auto simp: time_to_seconds_def split: sum.splits)

lemma table_not_NaN: "map_of road_events s = Some v \<Longrightarrow> v \<noteq> PyFloat NaN"
  by (auto simp: road_events_def split: if_splits)

lemma event_str_not_NaN: "event_to_meters (Str s) \<noteq> Inr (PyFloat NaN)"
  unfolding event_result
  using table_not_NaN[of s] by (auto simp: round_double_not_NaN split: option.splits)

lemma event_not_NaN: "event_to_meters x \<noteq> Inr (PyFloat NaN)"
proof (cases x)
  case (Str s)
  then show ?thesis using event_str_not_NaN by simp
next
  case (Other r)
  show ?thesis
  proof (cases r)
    case (Inl e)
    with Other show ?thesis by (simp add: event_to_meters_def event_to_meters_try_def bind_def)
  next
    case (Inr s)
    with Other have "event_to_meters x = event_to_meters (Str s)"
      by (simp add: event_to_meters_def event_to_meters_try_def)
    then show ?thesis using event_str_not_NaN by simp
  qed
qed

lemma key_isna_event: "key_isna ''_event_m'' r \<longleftrightarrow> event_m r = PyFloat NaN"
  by (simp add: key_isna_def cell_of_simps isna_CNum)

text \<open>
  C4, as the code has it. A missing (NaN) comparator value is possible for the Date and
  for the Time projection, never for Event: for every input, \<open>event_to_meters\<close> returns a
  number that is not NaN, so no row of the frame has a missing Event key; and
  \<open>time_to_seconds\<close> returns a number that is not NaN for every input string without the
  letter \<^verbatim>\<open>n\<close> (in either case) and without a minus sign.
\<close>

theorem event_key_never_missing:
  "event_to_meters x \<noteq> Inr (PyFloat NaN) \<and>
   (safe_text s \<longrightarrow> time_to_seconds (Str s) \<noteq> Inr (PyFloat NaN)) \<and>
   (prepare to_datetime recs = Inr df \<longrightarrow> (\<forall>r \<in> set df. \<not> key_isna ''_event_m'' r))"
proof (intro conjI impI ballI)
  show "event_to_meters x \<noteq> Inr (PyFloat NaN)" by (rule event_not_NaN)
next
  assume "safe_text s"
  then show "time_to_seconds (Str s) \<noteq> Inr (PyFloat NaN)" by (rule time_not_NaN)
next
  fix r
  assume "prepare to_datetime recs = Inr df" "r \<in> set df"
  from prepare_row_facts[OF this] obtain i where
    "event_to_meters (Str (Event (recs ! i))) = Inr (event_m r)" by blast
  then show "\<not> key_isna ''_event_m'' r"
    using event_not_NaN[of "Str (Event (recs ! i))"] by (simp add: key_isna_event)
qed

theorem event_key_never_missing_witness:
  "safe_text ''2'05'' \<and> time_to_seconds (Str ''2'05'') = Inr (PyFloat (Finite 125)) \<and>
   prepare sample_to_datetime sample_records = Inr sample_rows \<and>
   \<not> key_isna ''_event_m'' (sample_rows ! 1)"
proof -
  have 1: "safe_text ''2'05''" by (simp add: safe_text_def)
  have 2: "time_to_seconds (Str ''2'05'') = Inr (PyFloat (Finite 125))"
    by (simp add: parser_defs round_double_numeral)
  have 3: "prepare sample_to_datetime sample_records = Inr sample_rows"
    by (simp add: prepare_def sample_records_def sample_rows_def sample_to_datetime_def
        parser_defs round_double_numeral upt_rec)
  have 4: "sample_rows ! 1 \<in> set sample_rows" by (simp add: sample_rows_def)
  show ?thesis
    using event_key_never_missing [of x "''2'05''" sample_to_datetime sample_records sample_rows]
      1 2 3 4
    by simp
qed

theorem nan_time_counterexample:
  "time_to_seconds (Str ''nan'') = Inr (PyFloat NaN) \<and>
   key_isna ''_time_sec''
     \<lparr>src = \<lparr>Event = ''800m'', Time = ''nan'', Category = ''SEM'', Club = ''AC'', Region = ''N'',
              Location = ''Lille'', Date = ''15/03/2021''\<rparr>,
      time_sec = PyFloat NaN, event_m = PyFloat (Finite 800), date = Some 20210315\<rparr>"
  by (simp add: parser_defs key_isna_def cell_of_def)

section \<open>Totality of the parsers and the sentinel\<close>

subsection \<open>Characters that no number contains\<close>












subsection \<open>When the sentinel is returned\<close>




lemma bind_Inl: "r = Inl e \<Longrightarrow> bind r f = Inl e"
  by (simp add: bind_def)

lemma bind_isl: "(\<And>v. isl (f v)) \<Longrightarrow> isl (bind r f)"
  by (cases r) (simp_all add: bind_def)













end
